theory Spec2Isabelle
  imports Complex_Main "HOL-Library.Sublist"
begin

section \<open>Data model of \<^verbatim>\<open>valis-client.ts\<close>\<close>

text \<open>
  The client is a single-threaded, event-driven object: every handler runs to completion
  before the next event is processed. The embedding is a record of the object's fields
  together with the part of its environment the handlers talk to (the sockets it created,
  the pending timers, the frames written to the wire, the promise settlements and the
  emitted events), one HOL function per handler, and a step function over the external
  events.

  JavaScript numbers are idealised: millisecond values are unbounded integers, the jitter
  factor and the random draw are reals, and arithmetic is exact.
\<close>

datatype ValisClientStatus =
  StIdle | StConnecting | StOpen | StReconnecting | StClosing | StClosed

text \<open>The \<^verbatim>\<open>readyState\<close> of a WebSocket.\<close>

datatype ready_state = CONNECTING | OPEN | CLOSING | CLOSED

text \<open>
  An optional property of an options object: the key is missing, the key is present with
  the value \<^verbatim>\<open>undefined\<close>, or the key carries a value.
\<close>

datatype 'a field = Absent | Undefined | Given 'a

record ValisClientOptions =
  reconnect :: "bool field"
  reconnectInitialDelayMs :: "int field"
  reconnectMaxDelayMs :: "int field"
  reconnectJitter :: "real field"
  requestTimeoutMs :: "int field"
  heartbeatIntervalMs :: "int field"

definition DEFAULTS :: ValisClientOptions where
  "DEFAULTS =
    \<lparr> reconnect = Given True,
      reconnectInitialDelayMs = Given 500,
      reconnectMaxDelayMs = Given 12000,
      reconnectJitter = Given (2 / 10),
      requestTimeoutMs = Given 8000,
      heartbeatIntervalMs = Given 15000 \<rparr>"

text \<open>Object spread \<^verbatim>\<open>{ ...d, ...f }\<close>, one property at a time: a key present in
  \<open>f\<close> wins, also when its value is \<^verbatim>\<open>undefined\<close>.\<close>

definition spread :: "'a field \<Rightarrow> 'a field \<Rightarrow> 'a field" where
  "spread d f = (case f of Absent \<Rightarrow> d | Undefined \<Rightarrow> Undefined | Given v \<Rightarrow> Given v)"

definition merge_options :: "ValisClientOptions \<Rightarrow> ValisClientOptions \<Rightarrow> ValisClientOptions" where
  "merge_options d f =
    \<lparr> reconnect = spread (reconnect d) (reconnect f),
      reconnectInitialDelayMs = spread (reconnectInitialDelayMs d) (reconnectInitialDelayMs f),
      reconnectMaxDelayMs = spread (reconnectMaxDelayMs d) (reconnectMaxDelayMs f),
      reconnectJitter = spread (reconnectJitter d) (reconnectJitter f),
      requestTimeoutMs = spread (requestTimeoutMs d) (requestTimeoutMs f),
      heartbeatIntervalMs = spread (heartbeatIntervalMs d) (heartbeatIntervalMs f) \<rparr>"

text \<open>The nullish coalescing operator \<^verbatim>\<open>x ?? d\<close>.\<close>

definition nullish :: "'a field \<Rightarrow> 'a \<Rightarrow> 'a" where
  "nullish x d = (case x of Given v \<Rightarrow> v | _ \<Rightarrow> d)"

text \<open>Truthiness of an optional boolean property.\<close>

definition truthy :: "bool field \<Rightarrow> bool" where
  "truthy x = (case x of Given b \<Rightarrow> b | _ \<Rightarrow> False)"

text \<open>
  A \<^verbatim>\<open>QueueItem\<close>. The functions \<^verbatim>\<open>resolve\<close> and \<^verbatim>\<open>reject\<close> and the timer handle
  belong to one request; the number \<open>timeoutId\<close> identifies all three. Handles are issued
  in increasing order.
\<close>

record QueueItem =
  payload :: string
  timeoutId :: nat

text \<open>A decoded message: the parsed JSON value, or the text itself when it does not parse.
  Messages are text frames.\<close>

datatype data = Json string | Text string

datatype failure = ConnectionClosed | RequestTimedOut "int field"

datatype outcome = Resolved data | Rejected failure

datatype connect_outcome = ConnectResolved | ConnectTimedOut "int field"

text \<open>The events of \<^verbatim>\<open>Events\<close>, as passed to \<^verbatim>\<open>eventEmitter.emit\<close>. The DOM
  event objects of \<open>open\<close> and \<open>close\<close> and the round-trip time of a heartbeat (a
  difference of two clock readings) are left out.\<close>

datatype emitted_event =
  EvOpen
  | EvClose
  | EvError string
  | EvMessage data
  | EvReconnecting nat int
  | EvHeartbeat bool

text \<open>What the host provides: whether a global \<^verbatim>\<open>WebSocket\<close> exists, and
  \<^verbatim>\<open>JSON.parse\<close> (\<open>None\<close> when it throws).\<close>

record host =
  websocket_available :: bool
  json_parse :: "string \<Rightarrow> string option"

text \<open>
  The fields of the class come first. The remaining fields are the environment:
  \<^item> \<open>socks\<close>: the \<^verbatim>\<open>readyState\<close> of every socket created so far (a socket is its index);
  \<^item> \<open>wire\<close>: every call of \<^verbatim>\<open>ws.send\<close>, as the socket and the queue item whose payload
    was written;
  \<^item> \<open>timers\<close>: the per-request timeouts that are scheduled and not cleared, oldest first;
    each is the closure over its request's payload and \<^verbatim>\<open>reject\<close>;
  \<^item> \<open>pushed\<close>: every item ever appended to the queue, in the order of the calls of
    \<^verbatim>\<open>queue.push\<close>;
  \<^item> \<open>settled\<close>: every call of a request's \<^verbatim>\<open>resolve\<close> or \<^verbatim>\<open>reject\<close>;
  \<^item> \<open>awaiting\<close>: the calls of \<^verbatim>\<open>sendCommand\<close> suspended at \<^verbatim>\<open>await this.connect()\<close>:
    the connect promise waited for, the payload, and whether the heartbeat issued it;
  \<^item> \<open>probes\<close>: the requests whose promise the heartbeat callback awaits;
  \<^item> \<open>connectTimeouts\<close>: the sockets whose connect timeout is still scheduled;
  \<^item> \<open>connectSettled\<close>: the settlements of connect promises (a promise is the index of the
    socket its executor created);
  \<^item> \<open>reconnectTimers\<close>: the number of scheduled reconnect timers.
\<close>

record client =
  url :: string
  opts :: ValisClientOptions
  ws :: "nat option"
  status :: ValisClientStatus
  reconnectAttempt :: nat
  connectPromise :: "nat option"
  heartbeatTimer :: "int option"
  awaitingResponse :: bool
  manualClose :: bool
  queue :: "QueueItem list"
  socks :: "ready_state list"
  wire :: "(nat \<times> QueueItem) list"
  timers :: "QueueItem list"
  next_id :: nat
  pushed :: "QueueItem list"
  settled :: "(nat \<times> outcome) list"
  emitted :: "emitted_event list"
  logged :: "(string \<times> string) list"
  awaiting :: "(nat \<times> string \<times> bool) list"
  probes :: "nat list"
  connectTimeouts :: "nat list"
  connectSettled :: "(nat \<times> connect_outcome) list"
  reconnectTimers :: nat

text \<open>The constructor.\<close>

definition ValisClient :: "string \<Rightarrow> ValisClientOptions \<Rightarrow> client" where
  "ValisClient u f =
    \<lparr> url = u, opts = merge_options DEFAULTS f, ws = None, status = StIdle,
      reconnectAttempt = 0, connectPromise = None, heartbeatTimer = None,
      awaitingResponse = False, manualClose = False, queue = [],
      socks = [], wire = [], timers = [], next_id = 0, pushed = [], settled = [],
      emitted = [], logged = [], awaiting = [], probes = [], connectTimeouts = [],
      connectSettled = [], reconnectTimers = 0 \<rparr>"

section \<open>Internals\<close>

definition getStatus :: "client \<Rightarrow> ValisClientStatus" where
  "getStatus c = status c"

definition setStatus :: "ValisClientStatus \<Rightarrow> client \<Rightarrow> client" where
  "setStatus s c = c\<lparr>status := s\<rparr>"

definition log :: "string \<Rightarrow> string \<Rightarrow> client \<Rightarrow> client" where
  "log level msg c = c\<lparr>logged := logged c @ [(level, msg)]\<rparr>"

definition emit :: "emitted_event \<Rightarrow> client \<Rightarrow> client" where
  "emit e c = c\<lparr>emitted := emitted c @ [e]\<rparr>"

text \<open>The test \<^verbatim>\<open>this.ws && this.ws.readyState === WebSocket.OPEN\<close>.\<close>

definition ws_is_open :: "client \<Rightarrow> bool" where
  "ws_is_open c =
    (case ws c of None \<Rightarrow> False
     | Some i \<Rightarrow> i < length (socks c) \<and> socks c ! i = OPEN)"

text \<open>\<^verbatim>\<open>WebSocket.close\<close>: a socket that is connecting or open starts closing; the close
  event comes later. On a closing or closed socket the call does nothing.\<close>

definition sock_close :: "nat \<Rightarrow> client \<Rightarrow> client" where
  "sock_close i c =
    (if i < length (socks c) \<and> (socks c ! i = CONNECTING \<or> socks c ! i = OPEN)
     then c\<lparr>socks := (socks c)[i := CLOSING]\<rparr> else c)"

definition clearTimeout :: "nat \<Rightarrow> client \<Rightarrow> client" where
  "clearTimeout h c = c\<lparr>timers := filter (\<lambda>t. timeoutId t \<noteq> h) (timers c)\<rparr>"

definition settle :: "nat \<Rightarrow> outcome \<Rightarrow> client \<Rightarrow> client" where
  "settle h r c = c\<lparr>settled := settled c @ [(h, r)]\<rparr>"

definition flushQueue :: "client \<Rightarrow> client" where
  "flushQueue c =
    (if \<not> ws_is_open c then c
     else if awaitingResponse c then c
     else case queue c of
       [] \<Rightarrow> c
     | front # _ \<Rightarrow>
         (case ws c of
            None \<Rightarrow> c
          | Some i \<Rightarrow> c\<lparr>awaitingResponse := True, wire := wire c @ [(i, front)]\<rparr>))"

definition stopHeartbeat :: "client \<Rightarrow> client" where
  "stopHeartbeat c = (if heartbeatTimer c \<noteq> None then c\<lparr>heartbeatTimer := None\<rparr> else c)"

text \<open>\<^verbatim>\<open>if (!interval || interval <= 0) return\<close>: \<^verbatim>\<open>undefined\<close> and \<open>0\<close> are falsy.\<close>

definition startHeartbeat :: "client \<Rightarrow> client" where
  "startHeartbeat c =
    (case heartbeatIntervalMs (opts c) of
       Given interval \<Rightarrow>
         (if interval = 0 \<or> interval \<le> 0 then c
          else (stopHeartbeat c)\<lparr>heartbeatTimer := Some interval\<rparr>)
     | _ \<Rightarrow> c)"

definition maybeReconnectOnTimeout :: "client \<Rightarrow> client" where
  "maybeReconnectOnTimeout c =
    (if ws_is_open c \<and> truthy (reconnect (opts c))
     then (case ws c of
             None \<Rightarrow> c
           | Some i \<Rightarrow> sock_close i (log ''warn'' ''Timeout/heartbeat failure; reconnecting'' c))
     else c)"

text \<open>The two numbers computed in \<^verbatim>\<open>scheduleReconnect\<close>, for the value \<open>k\<close> of the
  attempt counter read by \<^verbatim>\<open>this.reconnectAttempt++\<close> and the draw \<open>u\<close> of
  \<^verbatim>\<open>Math.random()\<close>.\<close>

definition backoff_base :: "ValisClientOptions \<Rightarrow> nat \<Rightarrow> int" where
  "backoff_base f k =
    min (nullish (reconnectMaxDelayMs f) 12000)
        (nullish (reconnectInitialDelayMs f) 500 * 2 ^ k)"

definition backoff_delay :: "ValisClientOptions \<Rightarrow> nat \<Rightarrow> real \<Rightarrow> int" where
  "backoff_delay f k u =
    (let base = backoff_base f k;
         jitter = real_of_int base * nullish (reconnectJitter f) (2 / 10) * u
     in \<lfloor>real_of_int base + jitter\<rfloor>)"

definition scheduleReconnect :: "real \<Rightarrow> client \<Rightarrow> client" where
  "scheduleReconnect u c =
    (let c1 = setStatus StReconnecting c;
         k = reconnectAttempt c1;
         c2 = c1\<lparr>reconnectAttempt := Suc k\<rparr>;
         delay = backoff_delay (opts c2) k u;
         c3 = emit (EvReconnecting (reconnectAttempt c2) delay) c2
     in c3\<lparr>reconnectTimers := Suc (reconnectTimers c3)\<rparr>)"

section \<open>Public operations\<close>

text \<open>What a call of \<^verbatim>\<open>connect()\<close> gives back: it throws, it is fulfilled at once, or it
  follows the connect promise with the given number.\<close>

datatype connect_result = Throws | Returns | Pending nat

definition connect :: "host \<Rightarrow> client \<Rightarrow> client \<times> connect_result" where
  "connect h c =
    (if \<not> websocket_available h then (c, Throws)
     else if ws_is_open c then (c, Returns)
     else case connectPromise c of
       Some p \<Rightarrow> (c, Pending p)
     | None \<Rightarrow>
         (let c1 = setStatus StConnecting (c\<lparr>manualClose := False\<rparr>);
              i = length (socks c1);
              c2 = c1\<lparr>socks := socks c1 @ [CONNECTING], ws := Some i,
                      connectTimeouts := connectTimeouts c1 @ [i]\<rparr>
          in (c2\<lparr>connectPromise := Some i\<rparr>, Pending i)))"

definition disconnect :: "client \<Rightarrow> client" where
  "disconnect c =
    (let c1 = stopHeartbeat (setStatus StClosing (c\<lparr>manualClose := True\<rparr>));
         c2 = (case ws c1 of None \<Rightarrow> c1 | Some i \<Rightarrow> sock_close i c1);
         c3 = setStatus StClosed (c2\<lparr>ws := None\<rparr>)
     in c3\<lparr>connectPromise := None\<rparr>)"

text \<open>The executor of the promise that \<^verbatim>\<open>sendCommand\<close> returns: schedule the timeout,
  append the item, flush. \<open>probe\<close> tells whether the heartbeat callback awaits it.\<close>

definition enqueue :: "string \<Rightarrow> bool \<Rightarrow> client \<Rightarrow> client" where
  "enqueue p probe c =
    (let t = \<lparr>payload = p, timeoutId = next_id c\<rparr>;
         c1 = c\<lparr>next_id := Suc (next_id c), timers := timers c @ [t]\<rparr>;
         c2 = c1\<lparr>queue := queue c1 @ [t], pushed := pushed c1 @ [t],
                 probes := (if probe then probes c1 @ [timeoutId t] else probes c1)\<rparr>
     in flushQueue c2)"

text \<open>The rest of the heartbeat callback after its \<^verbatim>\<open>await\<close>: the \<^verbatim>\<open>try\<close> branch when
  the probe was answered, the \<^verbatim>\<open>catch\<close> branch when it failed.\<close>

definition heartbeat_result :: "bool \<Rightarrow> client \<Rightarrow> client" where
  "heartbeat_result ok c =
    (if ok then emit (EvHeartbeat True) c
     else maybeReconnectOnTimeout (emit (EvHeartbeat False) c))"

definition heartbeat_settled :: "bool \<Rightarrow> nat \<Rightarrow> client \<Rightarrow> client" where
  "heartbeat_settled ok h c =
    (if h \<in> set (probes c)
     then heartbeat_result ok (c\<lparr>probes := removeAll h (probes c)\<rparr>)
     else c)"

text \<open>A command is a string, or an object given by its \<^verbatim>\<open>JSON.stringify\<close> text.\<close>

datatype command = CmdString string | CmdObject string

definition payload_of :: "command \<Rightarrow> string" where
  "payload_of cmd = (case cmd of CmdString s \<Rightarrow> s | CmdObject s \<Rightarrow> s)"

text \<open>\<^verbatim>\<open>sendCommand\<close> up to its first suspension. With an open socket the executor runs
  in the same turn. Otherwise the call waits for \<^verbatim>\<open>connect()\<close>.\<close>

definition sendCommand :: "host \<Rightarrow> command \<Rightarrow> bool \<Rightarrow> client \<Rightarrow> client" where
  "sendCommand h cmd probe c =
    (if ws_is_open c then enqueue (payload_of cmd) probe c
     else case connect h c of
       (c1, Throws) \<Rightarrow> (if probe then heartbeat_result False c1 else c1)
     | (c1, Returns) \<Rightarrow> enqueue (payload_of cmd) probe c1
     | (c1, Pending p) \<Rightarrow> c1\<lparr>awaiting := awaiting c1 @ [(p, payload_of cmd, probe)]\<rparr>)"

text \<open>The suspended calls of \<^verbatim>\<open>sendCommand\<close> continue when their connect promise is
  fulfilled, and fail when it is rejected.\<close>

fun resume :: "(nat \<times> string \<times> bool) list \<Rightarrow> client \<Rightarrow> client" where
  "resume [] c = c"
| "resume ((p, pl, probe) # rest) c = resume rest (enqueue pl probe c)"

fun abandon :: "(nat \<times> string \<times> bool) list \<Rightarrow> client \<Rightarrow> client" where
  "abandon [] c = c"
| "abandon ((p, pl, probe) # rest) c =
     abandon rest (if probe then heartbeat_result False c else c)"

definition connect_fulfilled :: "nat \<Rightarrow> client \<Rightarrow> client" where
  "connect_fulfilled p c =
    resume (filter (\<lambda>a. fst a = p) (awaiting c))
      (c\<lparr>awaiting := filter (\<lambda>a. fst a \<noteq> p) (awaiting c)\<rparr>)"

definition connect_rejected :: "nat \<Rightarrow> client \<Rightarrow> client" where
  "connect_rejected p c =
    abandon (filter (\<lambda>a. fst a = p) (awaiting c))
      (c\<lparr>awaiting := filter (\<lambda>a. fst a \<noteq> p) (awaiting c)\<rparr>)"

section \<open>Socket observers and timer callbacks\<close>

definition onOpen :: "nat \<Rightarrow> client \<Rightarrow> client" where
  "onOpen i c =
    (let c1 = setStatus StOpen c;
         c2 = c1\<lparr>reconnectAttempt := 0\<rparr>;
         c3 = log ''info'' ''WebSocket open'' (emit EvOpen c2);
         c4 = startHeartbeat (flushQueue c3);
         c5 = c4\<lparr>connectPromise := None\<rparr>
     in c5\<lparr>connectSettled := connectSettled c5 @ [(i, ConnectResolved)]\<rparr>)"

definition decode :: "host \<Rightarrow> string \<Rightarrow> data" where
  "decode h d = (case json_parse h d of Some v \<Rightarrow> Json v | None \<Rightarrow> Text d)"

definition onMessage :: "host \<Rightarrow> string \<Rightarrow> client \<Rightarrow> client" where
  "onMessage h d c =
    (let v = decode h d;
         c1 = c\<lparr>awaitingResponse := False\<rparr>
     in case queue c1 of
          front # rest \<Rightarrow>
            flushQueue
              (settle (timeoutId front) (Resolved v)
                (clearTimeout (timeoutId front) (c1\<lparr>queue := rest\<rparr>)))
        | [] \<Rightarrow> flushQueue (emit (EvMessage v) c1))"

text \<open>The loop \<^verbatim>\<open>while (this.queue.length) { ... }\<close> of \<^verbatim>\<open>onClose\<close>.\<close>

function reject_pending :: "client \<Rightarrow> client" where
  "reject_pending c =
    (case queue c of
       [] \<Rightarrow> c
     | it # rest \<Rightarrow>
         reject_pending
           (settle (timeoutId it) (Rejected ConnectionClosed)
             (clearTimeout (timeoutId it) (c\<lparr>queue := rest\<rparr>))))"
  by pat_completeness auto
termination
  by (relation "measure (\<lambda>c. length (queue c))")
     (auto simp: settle_def clearTimeout_def)

declare reject_pending.simps [simp del]

definition onClose :: "real \<Rightarrow> client \<Rightarrow> client" where
  "onClose u c =
    (let c1 = log ''warn'' ''WebSocket closed'' (setStatus StClosed c);
         c2 = emit EvClose (stopHeartbeat c1);
         c3 = reject_pending c2;
         c4 = c3\<lparr>ws := None\<rparr>;
         c5 = c4\<lparr>connectPromise := None\<rparr>
     in if \<not> manualClose c5 \<and> truthy (reconnect (opts c5))
        then scheduleReconnect u c5 else c5)"

text \<open>The argument is the message of the \<^verbatim>\<open>Error\<close> passed in, if it is one.\<close>

definition onError :: "string option \<Rightarrow> client \<Rightarrow> client" where
  "onError err c =
    (let e = (case err of Some m \<Rightarrow> m | None \<Rightarrow> ''WebSocket error'')
     in log ''error'' ''WebSocket error'' (emit (EvError e) c))"

text \<open>The connect timeout of the socket \<open>i\<close>.\<close>

definition connectTimeout :: "nat \<Rightarrow> client \<Rightarrow> client" where
  "connectTimeout i c =
    (if status c \<noteq> StOpen
     then (let c1 = sock_close i c;
               c2 = c1\<lparr>connectPromise := None\<rparr>
           in c2\<lparr>connectSettled :=
                   connectSettled c2 @ [(i, ConnectTimedOut (requestTimeoutMs (opts c2)))]\<rparr>)
     else c)"

text \<open>The callback of the per-request timeout created in \<^verbatim>\<open>sendCommand\<close>, for the
  request \<open>t\<close> it closes over.\<close>

definition requestTimeout :: "QueueItem \<Rightarrow> client \<Rightarrow> client" where
  "requestTimeout t c =
    (let c1 = (case queue c of
                 [] \<Rightarrow> c
               | front # rest \<Rightarrow>
                   (if payload front = payload t
                    then c\<lparr>queue := rest, awaitingResponse := False\<rparr>
                    else c));
         c2 = settle (timeoutId t) (Rejected (RequestTimedOut (requestTimeoutMs (opts c1)))) c1
     in maybeReconnectOnTimeout c2)"

text \<open>The callback of the heartbeat interval, up to its \<^verbatim>\<open>await\<close>.\<close>

definition heartbeat :: "host \<Rightarrow> client \<Rightarrow> client" where
  "heartbeat h c =
    (if awaitingResponse c \<or> length (queue c) > 0 then c
     else sendCommand h (CmdString ''network'') True c)"

section \<open>The event loop\<close>

text \<open>
  One constructor per thing that can happen to the client: a call of a public operation, an
  event of a socket, or a timer that fires. A socket event carries the socket; the close
  event also carries the draw of \<^verbatim>\<open>Math.random()\<close> that \<^verbatim>\<open>scheduleReconnect\<close> will
  read, and the error event the message of its \<^verbatim>\<open>Error\<close>, if any.
\<close>

datatype action =
  Connect
  | Disconnect
  | SendCommand command
  | SockOpen nat
  | SockMessage nat string
  | SockClose nat real
  | SockError nat "string option"
  | RequestTimeout
  | ConnectTimeout nat
  | ReconnectTimer
  | HeartbeatTick

fun heartbeats_settled :: "bool \<Rightarrow> nat list \<Rightarrow> client \<Rightarrow> client" where
  "heartbeats_settled ok [] c = c"
| "heartbeats_settled ok (h # hs) c = heartbeats_settled ok hs (heartbeat_settled ok h c)"

text \<open>
  \<open>step\<close> gives \<open>None\<close> for an event that cannot happen in the state:
  \<^item> a socket opens once, while connecting; it delivers messages only while open; it
    closes once, and its observers are removed then;
  \<^item> a timer fires only while it is scheduled. All request timeouts have the same delay
    \<^verbatim>\<open>requestTimeoutMs\<close>, so they fire in the order they were scheduled: the one that
    fires is the oldest that is neither cleared nor fired;
  \<^item> \<^verbatim>\<open>Math.random()\<close> is at least 0 and less than 1.
  The continuations of promises settled by a handler run right after the handler.
\<close>

definition step :: "host \<Rightarrow> action \<Rightarrow> client \<Rightarrow> client option" where
  "step h a c =
    (case a of
       Connect \<Rightarrow> Some (fst (connect h c))
     | Disconnect \<Rightarrow> Some (disconnect c)
     | SendCommand cmd \<Rightarrow> Some (sendCommand h cmd False c)
     | SockOpen i \<Rightarrow>
         (if i < length (socks c) \<and> socks c ! i = CONNECTING
          then (let c1 = onOpen i (c\<lparr>socks := (socks c)[i := OPEN]\<rparr>);
                    c2 = connect_fulfilled i c1
                in Some (c2\<lparr>connectTimeouts := removeAll i (connectTimeouts c2)\<rparr>))
          else None)
     | SockMessage i d \<Rightarrow>
         (if i < length (socks c) \<and> socks c ! i = OPEN
          then Some (heartbeats_settled True (map timeoutId (take 1 (queue c)))
                       (onMessage h d c))
          else None)
     | SockClose i u \<Rightarrow>
         (if i < length (socks c) \<and> socks c ! i \<noteq> CLOSED \<and> 0 \<le> u \<and> u < 1
          then Some (heartbeats_settled False (map timeoutId (queue c))
                       (onClose u (c\<lparr>socks := (socks c)[i := CLOSED]\<rparr>)))
          else None)
     | SockError i err \<Rightarrow>
         (if i < length (socks c) \<and> socks c ! i \<noteq> CLOSED
          then Some (onError err c) else None)
     | RequestTimeout \<Rightarrow>
         (case timers c of
            [] \<Rightarrow> None
          | t # ts \<Rightarrow>
              Some (heartbeat_settled False (timeoutId t)
                      (requestTimeout t (c\<lparr>timers := ts\<rparr>))))
     | ConnectTimeout i \<Rightarrow>
         (if i \<in> set (connectTimeouts c)
          then (let c1 = c\<lparr>connectTimeouts := removeAll i (connectTimeouts c)\<rparr>;
                    c2 = connectTimeout i c1
                in Some (if status c1 \<noteq> StOpen then connect_rejected i c2 else c2))
          else None)
     | ReconnectTimer \<Rightarrow>
         (if 0 < reconnectTimers c
          then Some (fst (connect h (c\<lparr>reconnectTimers := reconnectTimers c - 1\<rparr>)))
          else None)
     | HeartbeatTick \<Rightarrow>
         (if heartbeatTimer c \<noteq> None then Some (heartbeat h c) else None))"

fun run :: "host \<Rightarrow> action list \<Rightarrow> client \<Rightarrow> client option" where
  "run h [] c = Some c"
| "run h (a # as) c = (case step h a c of None \<Rightarrow> None | Some c1 \<Rightarrow> run h as c1)"

text \<open>A browser: \<^verbatim>\<open>WebSocket\<close> exists; its \<^verbatim>\<open>JSON.parse\<close> is left to accept every
  text as it is.\<close>

definition browser :: host where
  "browser = \<lparr> websocket_available = True, json_parse = (\<lambda>s. Some s) \<rparr>"

definition no_options :: ValisClientOptions where
  "no_options =
    \<lparr> reconnect = Absent, reconnectInitialDelayMs = Absent, reconnectMaxDelayMs = Absent,
      reconnectJitter = Absent, requestTimeoutMs = Absent, heartbeatIntervalMs = Absent \<rparr>"

section \<open>Observations and the invariant\<close>

text \<open>The requests in flight: the pending requests whose payload has been written to a
  socket.\<close>

definition in_flight :: "client \<Rightarrow> QueueItem list" where
  "in_flight c = filter (\<lambda>q. q \<in> snd ` set (wire c)) (queue c)"

text \<open>The events emitted after the last \<open>open\<close> event, and the \<open>reconnecting\<close> events
  among them.\<close>

definition since_open :: "emitted_event list \<Rightarrow> emitted_event list" where
  "since_open es = rev (takeWhile (\<lambda>e. e \<noteq> EvOpen) (rev es))"

fun is_reconnecting :: "emitted_event \<Rightarrow> bool" where
  "is_reconnecting (EvReconnecting a d) = True"
| "is_reconnecting _ = False"

definition reconnects_since_open :: "emitted_event list \<Rightarrow> emitted_event list" where
  "reconnects_since_open es = filter is_reconnecting (since_open es)"

text \<open>The part of the state that the queue discipline is about.\<close>

definition core :: "client \<Rightarrow> QueueItem list \<times> QueueItem list \<times> (nat \<times> QueueItem) list \<times> (nat \<times> outcome) list \<times> nat \<times> QueueItem list \<times> bool" where
  "core c = (queue c, timers c, wire c, settled c, next_id c, pushed c, awaitingResponse c)"

text \<open>
  The invariant of the queue discipline: the request timeouts still scheduled are those of
  the pending requests, in the same order; handles increase along the queue, along the
  history of enqueued items and along the wire; every item written to a socket was enqueued
  before, and it is older than the head of the queue, or it is the head while
  \<^verbatim>\<open>awaitingResponse\<close> is set; no request is settled twice, or settled while pending.
\<close>

definition inv :: "client \<Rightarrow> bool" where
  "inv c \<longleftrightarrow>
     timers c = queue c \<and>
     sorted_wrt (<) (map timeoutId (queue c)) \<and>
     (\<forall>q\<in>set (queue c). timeoutId q < next_id c) \<and>
     set (queue c) \<subseteq> set (pushed c) \<and>
     map timeoutId (pushed c) = [0..<next_id c] \<and>
     sorted_wrt (<) (map (\<lambda>w. timeoutId (snd w)) (wire c)) \<and>
     (\<forall>w\<in>set (wire c). snd w \<in> set (pushed c) \<and> timeoutId (snd w) < next_id c) \<and>
     (case queue c of
        [] \<Rightarrow> True
      | front # rest \<Rightarrow>
          (\<forall>w\<in>set (wire c).
             timeoutId (snd w) < timeoutId front \<or>
             (awaitingResponse c \<and> timeoutId (snd w) = timeoutId front))) \<and>
     distinct (map fst (settled c)) \<and>
     (\<forall>s\<in>set (settled c). fst s < next_id c \<and> fst s \<notin> timeoutId ` set (queue c))"

text \<open>The options, the heartbeat timer, the attempt counter and the \<open>reconnecting\<close>
  events since the last \<open>open\<close>: the part of the state that the heartbeat rule and the
  backoff policy are about.\<close>

definition aux :: "client \<Rightarrow> ValisClientOptions \<times> int option \<times> nat \<times> emitted_event list" where
  "aux c = (opts c, heartbeatTimer c, reconnectAttempt c, reconnects_since_open (emitted c))"

text \<open>The test \<^verbatim>\<open>!interval || interval <= 0\<close> of \<^verbatim>\<open>startHeartbeat\<close>, on the merged
  options.\<close>

definition heartbeat_off :: "ValisClientOptions \<Rightarrow> bool" where
  "heartbeat_off f = (case heartbeatIntervalMs f of Given n \<Rightarrow> n \<le> 0 | _ \<Rightarrow> True)"

text \<open>What holds of that part in every state of a client constructed with the options
  \<open>f\<close>: the options stay the merged ones, a heartbeat that is switched off has no timer,
  and the attempt counter counts the \<open>reconnecting\<close> events since the last \<open>open\<close>.\<close>

definition aux_inv :: "ValisClientOptions \<Rightarrow> client \<Rightarrow> bool" where
  "aux_inv f c \<longleftrightarrow>
     opts c = merge_options DEFAULTS f \<and>
     (heartbeat_off (opts c) \<longrightarrow> heartbeatTimer c = None) \<and>
     reconnectAttempt c = length (reconnects_since_open (emitted c))"

section \<open>Handlers that leave the queue alone\<close>

lemma inv_core: "core c = core d \<Longrightarrow> inv c = inv d"
  by (auto simp: core_def inv_def split: list.splits)

lemma core_updates [simp]:
  "core (c\<lparr>url := x1\<rparr>) = core c"
  "core (c\<lparr>opts := x2\<rparr>) = core c"
  "core (c\<lparr>ws := x3\<rparr>) = core c"
  "core (c\<lparr>status := x4\<rparr>) = core c"
  "core (c\<lparr>reconnectAttempt := x5\<rparr>) = core c"
  "core (c\<lparr>connectPromise := x6\<rparr>) = core c"
  "core (c\<lparr>heartbeatTimer := x7\<rparr>) = core c"
  "core (c\<lparr>manualClose := x8\<rparr>) = core c"
  "core (c\<lparr>socks := x9\<rparr>) = core c"
  "core (c\<lparr>emitted := x10\<rparr>) = core c"
  "core (c\<lparr>logged := x11\<rparr>) = core c"
  "core (c\<lparr>awaiting := x12\<rparr>) = core c"
  "core (c\<lparr>probes := x13\<rparr>) = core c"
  "core (c\<lparr>connectTimeouts := x14\<rparr>) = core c"
  "core (c\<lparr>connectSettled := x15\<rparr>) = core c"
  "core (c\<lparr>reconnectTimers := x16\<rparr>) = core c"
  by (simp_all add: core_def)

lemma core_setStatus [simp]: "core (setStatus s c) = core c"
  by (simp add: core_def setStatus_def)
lemma core_log [simp]: "core (log l m c) = core c"
  by (simp add: core_def log_def)
lemma core_emit [simp]: "core (emit e c) = core c"
  by (simp add: core_def emit_def)
lemma core_sock_close [simp]: "core (sock_close i c) = core c"
  by (simp add: core_def sock_close_def)
lemma core_stopHeartbeat [simp]: "core (stopHeartbeat c) = core c"
  by (simp add: core_def stopHeartbeat_def)
lemma core_startHeartbeat [simp]: "core (startHeartbeat c) = core c"
  by (simp add: core_def startHeartbeat_def stopHeartbeat_def split: field.splits)
lemma core_maybeReconnectOnTimeout [simp]: "core (maybeReconnectOnTimeout c) = core c"
  by (simp add: maybeReconnectOnTimeout_def split: option.splits)
lemma core_scheduleReconnect [simp]: "core (scheduleReconnect u c) = core c"
  by (simp add: scheduleReconnect_def Let_def core_def emit_def setStatus_def)
lemma core_connect [simp]: "core (fst (connect h c)) = core c"
  by (simp add: connect_def Let_def core_def setStatus_def split: option.splits)
lemma core_disconnect [simp]: "core (disconnect c) = core c"
  by (simp add: disconnect_def Let_def core_def setStatus_def stopHeartbeat_def sock_close_def split: option.splits)
lemma core_heartbeat_result [simp]: "core (heartbeat_result ok c) = core c"
  by (simp add: heartbeat_result_def)
lemma core_heartbeat_settled [simp]: "core (heartbeat_settled ok h c) = core c"
  by (simp add: heartbeat_settled_def)
lemma core_heartbeats_settled [simp]: "core (heartbeats_settled ok hs c) = core c"
  by (induction hs arbitrary: c) simp_all
lemma core_abandon [simp]: "core (abandon xs c) = core c"
  by (induction xs c rule: abandon.induct) simp_all
lemma core_connect_rejected [simp]: "core (connect_rejected p c) = core c"
  by (simp add: connect_rejected_def)
lemma core_connectTimeout [simp]: "core (connectTimeout i c) = core c"
  by (simp add: connectTimeout_def Let_def core_def sock_close_def)
lemma core_onError [simp]: "core (onError e c) = core c"
  by (simp add: onError_def)

lemma inv_frame: "inv c \<Longrightarrow> core d = core c \<Longrightarrow> inv d"
  using inv_core by blast

lemma sorted_ids_distinct: "sorted_wrt (<) (map timeoutId xs) \<Longrightarrow> distinct xs"
  by (induction xs) auto

lemma inv_flushQueue: "inv c \<Longrightarrow> inv (flushQueue c)"
  unfolding flushQueue_def inv_def
  by (auto simp: sorted_wrt_append split: list.splits option.splits)

lemma inv_enqueue: "inv c \<Longrightarrow> inv (enqueue p b c)"
  unfolding enqueue_def Let_def
  apply (rule inv_flushQueue)
  unfolding inv_def
  apply (auto simp: sorted_wrt_append split: list.splits)
  done

lemma inv_resume: "inv c \<Longrightarrow> inv (resume xs c)"
  by (induction xs c rule: resume.induct) (simp_all add: inv_enqueue)

lemma inv_dequeue:
  assumes "inv c" "queue c = front # rest"
  shows "inv (settle (timeoutId front) r (clearTimeout (timeoutId front) (c\<lparr>queue := rest, awaitingResponse := False\<rparr>)))"
  using assms unfolding inv_def settle_def clearTimeout_def
  by (auto simp: filter_id_conv split: list.splits) force

lemma inv_awaiting_False: "inv c \<Longrightarrow> queue c = [] \<Longrightarrow> inv (c\<lparr>awaitingResponse := b\<rparr>)"
  unfolding inv_def by simp

lemma inv_onMessage: "inv c \<Longrightarrow> inv (onMessage h d c)"
proof (cases "queue c")
  case Nil
  assume "inv c"
  then have "inv (c\<lparr>awaitingResponse := False\<rparr>)"
    using Nil by (rule inv_awaiting_False)
  then have "inv (emit (EvMessage (decode h d)) (c\<lparr>awaitingResponse := False\<rparr>))"
    by (rule inv_frame) simp
  then show ?thesis using Nil
    by (simp add: onMessage_def Let_def inv_flushQueue)
next
  case (Cons front rest)
  assume "inv c"
  then have "inv (settle (timeoutId front) (Resolved (decode h d))
     (clearTimeout (timeoutId front) (c\<lparr>queue := rest, awaitingResponse := False\<rparr>)))"
    using Cons by (rule inv_dequeue)
  then have "inv (settle (timeoutId front) (Resolved (decode h d))
     (clearTimeout (timeoutId front) (c\<lparr>awaitingResponse := False, queue := rest\<rparr>)))"
    by (rule inv_frame) (simp add: core_def settle_def clearTimeout_def)
  then show ?thesis using Cons
    by (simp add: onMessage_def Let_def inv_flushQueue)
qed

lemma reject_pending_Nil: "queue c = [] \<Longrightarrow> reject_pending c = c"
  by (subst reject_pending.simps) simp

lemma reject_pending_Cons:
  "queue c = it # rest \<Longrightarrow>
   reject_pending c =
     reject_pending (settle (timeoutId it) (Rejected ConnectionClosed)
       (clearTimeout (timeoutId it) (c\<lparr>queue := rest\<rparr>)))"
  by (subst reject_pending.simps) simp

lemma inv_reject_pending: "inv c \<Longrightarrow> inv (reject_pending c)"
proof (induction c rule: reject_pending.induct)
  case (1 c)
  show ?case
  proof (cases "queue c")
    case Nil
    then show ?thesis using "1.prems" by (simp add: reject_pending_Nil)
  next
    case (Cons it rest)
    have "inv (settle (timeoutId it) (Rejected ConnectionClosed)
             (clearTimeout (timeoutId it) (c\<lparr>queue := rest\<rparr>)))"
      using "1.prems" Cons unfolding inv_def settle_def clearTimeout_def
      by (auto simp: filter_id_conv split: list.splits) force
    from "1.IH" [OF Cons this] Cons show ?thesis
      by (simp add: reject_pending_Cons)
  qed
qed

lemma inv_requestTimeout:
  assumes "inv c" "timers c = t # ts"
  shows "inv (requestTimeout t (c\<lparr>timers := ts\<rparr>))"
proof -
  from assms have q: "queue c = t # ts" by (simp add: inv_def)
  have "inv (settle (timeoutId t) (Rejected (RequestTimedOut (requestTimeoutMs (opts c))))
          (c\<lparr>timers := ts, queue := ts, awaitingResponse := False\<rparr>))"
    using assms q unfolding inv_def settle_def
    by (auto split: list.splits)
  moreover have "core (requestTimeout t (c\<lparr>timers := ts\<rparr>)) =
     core (settle (timeoutId t) (Rejected (RequestTimedOut (requestTimeoutMs (opts c))))
          (c\<lparr>timers := ts, queue := ts, awaitingResponse := False\<rparr>))"
    using q by (simp add: requestTimeout_def Let_def)
  ultimately show ?thesis by (rule inv_frame)
qed

lemma inv_init: "inv (ValisClient u f)"
  by (simp add: inv_def ValisClient_def)

lemma inv_connect: "inv c \<Longrightarrow> connect h c = (c1, r) \<Longrightarrow> inv c1"
  using core_connect [of h c] by (auto elim: inv_frame)

lemma inv_sendCommand: "inv c \<Longrightarrow> inv (sendCommand h cmd b c)"
  unfolding sendCommand_def
  apply (auto simp: inv_enqueue split: prod.splits connect_result.splits dest: inv_connect)
   apply (erule inv_frame [OF inv_connect], assumption, simp)+
  done

lemma inv_heartbeat: "inv c \<Longrightarrow> inv (heartbeat h c)"
  by (simp add: heartbeat_def inv_sendCommand)

lemma inv_onOpen: "inv c \<Longrightarrow> inv (onOpen i c)"
proof -
  assume "inv c"
  then have "inv (log ''info'' ''WebSocket open'' (emit EvOpen (setStatus StOpen c\<lparr>reconnectAttempt := 0\<rparr>)))"
    by (rule inv_frame) simp
  then have "inv (flushQueue (log ''info'' ''WebSocket open'' (emit EvOpen (setStatus StOpen c\<lparr>reconnectAttempt := 0\<rparr>))))"
    by (rule inv_flushQueue)
  then show ?thesis
    by (rule inv_frame) (simp add: onOpen_def Let_def)
qed

lemma inv_onClose: "inv c \<Longrightarrow> inv (onClose u c)"
proof -
  assume "inv c"
  then have "inv (emit EvClose (stopHeartbeat (log ''warn'' ''WebSocket closed'' (setStatus StClosed c))))"
    by (rule inv_frame) simp
  then have "inv (reject_pending (emit EvClose (stopHeartbeat (log ''warn'' ''WebSocket closed'' (setStatus StClosed c)))))"
    by (rule inv_reject_pending)
  then show ?thesis
    by (rule inv_frame) (simp add: onClose_def Let_def)
qed

lemma inv_connect_fulfilled: "inv c \<Longrightarrow> inv (connect_fulfilled p c)"
  unfolding connect_fulfilled_def
  by (rule inv_resume, erule inv_frame) simp

lemma inv_socks: "inv c \<Longrightarrow> inv (c\<lparr>socks := x\<rparr>)"
  by (erule inv_frame) simp

lemma inv_step:
  assumes "inv c" "step h a c = Some c1"
  shows "inv c1"
proof (cases a)
  case Connect
  with assms show ?thesis by (auto simp: step_def elim: inv_frame)
next
  case Disconnect
  with assms show ?thesis by (auto simp: step_def elim: inv_frame)
next
  case (SendCommand cmd)
  with assms show ?thesis by (auto simp: step_def inv_sendCommand)
next
  case (SockOpen i)
  have "inv (connect_fulfilled i (onOpen i (c\<lparr>socks := (socks c)[i := OPEN]\<rparr>)))"
    by (intro inv_connect_fulfilled inv_onOpen inv_socks assms)
  then have "inv (connect_fulfilled i (onOpen i (c\<lparr>socks := (socks c)[i := OPEN]\<rparr>))
       \<lparr>connectTimeouts := x\<rparr>)" for x
    by (rule inv_frame) simp
  with assms(2) SockOpen show ?thesis
    by (auto simp: step_def Let_def split: if_splits)
next
  case (SockMessage i d)
  have "inv (heartbeats_settled True xs (onMessage h d c))" for xs
    by (rule inv_frame [OF inv_onMessage [OF assms(1)]]) simp
  with assms(2) SockMessage show ?thesis
    by (auto simp: step_def split: if_splits)
next
  case (SockClose i u)
  have "inv (heartbeats_settled False xs (onClose u (c\<lparr>socks := (socks c)[i := CLOSED]\<rparr>)))" for xs
    by (rule inv_frame [OF inv_onClose [OF inv_socks [OF assms(1)]]]) simp
  with assms(2) SockClose show ?thesis
    by (auto simp: step_def split: if_splits)
next
  case (SockError i e)
  have "inv (onError e c)"
    by (rule inv_frame [OF assms(1)]) simp
  with assms(2) SockError show ?thesis
    by (auto simp: step_def split: if_splits)
next
  case RequestTimeout
  have "inv (heartbeat_settled False x (requestTimeout t (c\<lparr>timers := ts\<rparr>)))"
    if "timers c = t # ts" for x t ts
    by (rule inv_frame [OF inv_requestTimeout [OF assms(1) that]]) simp
  with assms(2) RequestTimeout show ?thesis
    by (auto simp: step_def split: list.splits)
next
  case (ConnectTimeout i)
  have "inv (connect_rejected i (connectTimeout i (c\<lparr>connectTimeouts := x\<rparr>)))" for x
    by (rule inv_frame [OF assms(1)]) simp
  moreover have "inv (connectTimeout i (c\<lparr>connectTimeouts := x\<rparr>))" for x
    by (rule inv_frame [OF assms(1)]) simp
  ultimately show ?thesis using assms(2) ConnectTimeout
    by (auto simp: step_def Let_def split: if_splits)
next
  case ReconnectTimer
  have "inv (fst (connect h (c\<lparr>reconnectTimers := x\<rparr>)))" for x
    by (rule inv_frame [OF assms(1)]) simp
  with assms(2) ReconnectTimer show ?thesis
    by (auto simp: step_def split: if_splits)
next
  case HeartbeatTick
  with assms show ?thesis
    by (auto simp: step_def inv_heartbeat split: if_splits)
qed

lemma inv_run: "inv c \<Longrightarrow> run h as c = Some c1 \<Longrightarrow> inv c1"
  by (induction as arbitrary: c) (auto split: option.splits dest: inv_step)

section \<open>Consequences of the invariant\<close>

lemma subseq_by_ids:
  fixes f :: "'a \<Rightarrow> nat"
  shows "sorted_wrt (<) (map f ys) \<Longrightarrow> sorted_wrt (<) (map f xs) \<Longrightarrow> set xs \<subseteq> set ys \<Longrightarrow> subseq xs ys"
proof (induction ys arbitrary: xs)
  case Nil
  then show ?case by simp
next
  case (Cons y ys)
  show ?case
  proof (cases xs)
    case Nil
    then show ?thesis by simp
  next
    case (Cons x xs')
    show ?thesis
    proof (cases "x = y")
      case True
      have "set xs' \<subseteq> set ys"
        using Cons.prems Cons True by fastforce
      then have "subseq xs' ys"
        using Cons.IH [of xs'] Cons.prems Cons by simp
      then show ?thesis using Cons True by simp
    next
      case False
      then have "x \<in> set ys" using Cons.prems Cons by auto
      then have "f y < f x" using Cons.prems by auto
      then have "set xs \<subseteq> set ys"
        using Cons.prems Cons by fastforce
      then have "subseq xs ys"
        using Cons.IH [of xs] Cons.prems by simp
      then show ?thesis by (rule list_emb_Cons)
    qed
  qed
qed

lemma inv_wire_subseq: "inv c \<Longrightarrow> subseq (map snd (wire c)) (pushed c)"
  by (rule subseq_by_ids [where f = timeoutId]) (auto simp: inv_def comp_def)

lemma inv_queue_subseq: "inv c \<Longrightarrow> subseq (queue c) (pushed c)"
  by (rule subseq_by_ids [where f = timeoutId]) (auto simp: inv_def)

lemma inv_pushed_distinct: "inv c \<Longrightarrow> distinct (pushed c)"
  by (rule sorted_ids_distinct) (simp add: inv_def)

lemma inv_in_flight:
  assumes "inv c"
  shows "length (in_flight c) \<le> 1"
    and "in_flight c \<noteq> [] \<Longrightarrow> awaitingResponse c \<and> in_flight c = [hd (queue c)]"
proof -
  have "in_flight c = [] \<or> (awaitingResponse c \<and> in_flight c = [hd (queue c)])"
  proof (cases "queue c")
    case Nil
    then show ?thesis by (simp add: in_flight_def)
  next
    case (Cons front rest)
    have "filter (\<lambda>q. q \<in> snd ` set (wire c)) rest = []"
      using assms Cons unfolding inv_def by (fastforce simp: filter_empty_conv)
    then show ?thesis using assms Cons unfolding inv_def in_flight_def by auto
  qed
  then show "length (in_flight c) \<le> 1"
    and "in_flight c \<noteq> [] \<Longrightarrow> awaitingResponse c \<and> in_flight c = [hd (queue c)]"
    by auto
qed

lemma core_fields:
  "core a = core b \<Longrightarrow>
     queue a = queue b \<and> timers a = timers b \<and> wire a = wire b \<and> settled a = settled b \<and>
     next_id a = next_id b \<and> pushed a = pushed b \<and> awaitingResponse a = awaitingResponse b"
  by (simp add: core_def)

lemma flushQueue_keeps [simp]:
  "queue (flushQueue c) = queue c" "settled (flushQueue c) = settled c"
  "timers (flushQueue c) = timers c" "next_id (flushQueue c) = next_id c"
  "pushed (flushQueue c) = pushed c"
  by (simp_all add: flushQueue_def split: list.splits option.splits)

lemma settled_enqueue [simp]: "settled (enqueue p b c) = settled c"
  by (simp add: enqueue_def Let_def)

lemma settled_resume [simp]: "settled (resume xs c) = settled c"
  by (induction xs c rule: resume.induct) simp_all

lemma onMessage_effect:
  "queue c = front # rest \<Longrightarrow>
     queue (onMessage h d c) = rest \<and>
     settled (onMessage h d c) = settled c @ [(timeoutId front, Resolved (decode h d))]"
  "queue c = [] \<Longrightarrow> queue (onMessage h d c) = [] \<and> settled (onMessage h d c) = settled c"
  by (simp_all add: onMessage_def Let_def settle_def clearTimeout_def emit_def)

lemma step_message_effect:
  assumes "step h (SockMessage i d) c = Some c1"
  shows "queue c = front # rest \<Longrightarrow>
     queue c1 = rest \<and> settled c1 = settled c @ [(timeoutId front, Resolved (decode h d))]"
    and "queue c = [] \<Longrightarrow> queue c1 = [] \<and> settled c1 = settled c"
proof -
  from assms obtain xs where c1: "c1 = heartbeats_settled True xs (onMessage h d c)"
    by (auto simp: step_def split: if_splits)
  have "core c1 = core (onMessage h d c)" by (simp add: c1)
  then have *: "queue c1 = queue (onMessage h d c)" "settled c1 = settled (onMessage h d c)"
    by (auto dest: core_fields)
  show "queue c = front # rest \<Longrightarrow>
     queue c1 = rest \<and> settled c1 = settled c @ [(timeoutId front, Resolved (decode h d))]"
    by (simp add: * onMessage_effect)
  show "queue c = [] \<Longrightarrow> queue c1 = [] \<and> settled c1 = settled c"
    by (simp add: * onMessage_effect)
qed

lemma reject_pending_effect:
  "queue (reject_pending c) = [] \<and>
   settled (reject_pending c) =
     settled c @ map (\<lambda>q. (timeoutId q, Rejected ConnectionClosed)) (queue c)"
proof (induction c rule: reject_pending.induct)
  case (1 c)
  show ?case
  proof (cases "queue c")
    case Nil
    then show ?thesis by (simp add: reject_pending_Nil)
  next
    case (Cons it rest)
    from "1.IH" [OF Cons] Cons show ?thesis
      by (simp add: reject_pending_Cons settle_def clearTimeout_def)
  qed
qed

lemma onClose_effect:
  "queue (onClose u c) = [] \<and>
   settled (onClose u c) = settled c @ map (\<lambda>q. (timeoutId q, Rejected ConnectionClosed)) (queue c)"
proof -
  let ?d = "emit EvClose (stopHeartbeat (log ''warn'' ''WebSocket closed'' (setStatus StClosed c)))"
  have "core (onClose u c) = core (reject_pending ?d)"
    by (simp add: onClose_def Let_def)
  then have "queue (onClose u c) = queue (reject_pending ?d)"
    "settled (onClose u c) = settled (reject_pending ?d)"
    by (auto dest: core_fields)
  moreover have "queue ?d = queue c \<and> settled ?d = settled c"
    using core_fields [of ?d c] by simp
  ultimately show ?thesis
    using reject_pending_effect [of ?d] by simp
qed

lemma step_close_effect:
  assumes "step h (SockClose i u) c = Some c1"
  shows "queue c1 = [] \<and>
   settled c1 = settled c @ map (\<lambda>q. (timeoutId q, Rejected ConnectionClosed)) (queue c)"
proof -
  let ?d = "c\<lparr>socks := (socks c)[i := CLOSED]\<rparr>"
  from assms obtain xs where c1: "c1 = heartbeats_settled False xs (onClose u ?d)"
    by (auto simp: step_def split: if_splits)
  have "core c1 = core (onClose u ?d)" by (simp add: c1)
  then have "queue c1 = queue (onClose u ?d)" "settled c1 = settled (onClose u ?d)"
    by (auto dest: core_fields)
  then show ?thesis using onClose_effect [of u ?d] by simp
qed

lemma step_timeout_effect:
  assumes "inv c" "step h RequestTimeout c = Some c1"
  shows "\<exists>t rest. queue c = t # rest \<and> timers c = t # rest \<and> queue c1 = rest \<and>
           \<not> awaitingResponse c1 \<and>
           settled c1 = settled c @
             [(timeoutId t, Rejected (RequestTimedOut (requestTimeoutMs (opts c))))]"
proof -
  from assms(2) obtain t ts where ts: "timers c = t # ts"
    and c1: "c1 = heartbeat_settled False (timeoutId t) (requestTimeout t (c\<lparr>timers := ts\<rparr>))"
    by (auto simp: step_def split: list.splits)
  from assms(1) ts have q: "queue c = t # ts" by (simp add: inv_def)
  let ?d = "settle (timeoutId t) (Rejected (RequestTimedOut (requestTimeoutMs (opts c))))
          (c\<lparr>timers := ts, queue := ts, awaitingResponse := False\<rparr>)"
  have "core c1 = core ?d"
    using q by (simp add: c1 requestTimeout_def Let_def)
  then have "queue c1 = queue ?d" "awaitingResponse c1 = awaitingResponse ?d" "settled c1 = settled ?d"
    by (auto dest: core_fields)
  then show ?thesis using q ts by (simp add: settle_def)
qed

lemma settled_frame: "core a = core b \<Longrightarrow> settled a = settled b"
  by (simp add: core_def)

lemma settled_connect: "connect h c = (c1, r) \<Longrightarrow> settled c1 = settled c"
  using core_connect [of h c] by (auto dest: settled_frame)

lemma settled_sendCommand [simp]: "settled (sendCommand h cmd b c) = settled c"
  by (auto simp: sendCommand_def settled_frame [of "heartbeat_result False x" x for x]
        split: prod.splits connect_result.splits dest: settled_connect)

lemma settled_step:
  assumes "step h a c = Some c1"
  shows "prefix (settled c) (settled c1)"
proof (cases a)
  case Connect
  with assms show ?thesis
    by (auto simp: step_def settled_frame [of "fst (connect h c)" c])
next
  case Disconnect
  with assms show ?thesis
    by (auto simp: step_def settled_frame [of "disconnect c" c])
next
  case (SendCommand cmd)
  with assms show ?thesis by (auto simp: step_def)
next
  case (SockOpen i)
  let ?d = "c\<lparr>socks := (socks c)[i := OPEN]\<rparr>"
  have "settled (onOpen i ?d) = settled (flushQueue
     (log ''info'' ''WebSocket open'' (emit EvOpen (setStatus StOpen ?d\<lparr>reconnectAttempt := 0\<rparr>))))"
    by (rule settled_frame) (simp add: onOpen_def Let_def)
  also have "\<dots> = settled c"
    by (simp add: settled_frame [of "log x y z" z for x y z] settled_frame [of "emit x z" z for x z]
          setStatus_def)
  finally have "settled (connect_fulfilled i (onOpen i ?d)) = settled c"
    by (simp add: connect_fulfilled_def)
  with assms SockOpen show ?thesis
    by (auto simp: step_def Let_def split: if_splits)
next
  case (SockMessage i d)
  with assms step_message_effect [of h i d c c1] show ?thesis
    by (cases "queue c") auto
next
  case (SockClose i u)
  with assms step_close_effect [of h i u c c1] show ?thesis by auto
next
  case (SockError i e)
  with assms show ?thesis
    by (auto simp: step_def settled_frame [of "onError e c" c] split: if_splits)
next
  case RequestTimeout
  from assms RequestTimeout obtain t ts where ts: "timers c = t # ts"
    and c1: "c1 = heartbeat_settled False (timeoutId t) (requestTimeout t (c\<lparr>timers := ts\<rparr>))"
    by (auto simp: step_def split: list.splits)
  have "settled c1 = settled (requestTimeout t (c\<lparr>timers := ts\<rparr>))"
    by (rule settled_frame) (simp add: c1)
  also have "\<dots> = settled (settle (timeoutId t)
      (Rejected (RequestTimedOut (requestTimeoutMs (opts c))))
      (case queue c of [] \<Rightarrow> c\<lparr>timers := ts\<rparr>
       | front # rest \<Rightarrow> if payload front = payload t
           then c\<lparr>timers := ts, queue := rest, awaitingResponse := False\<rparr>
           else c\<lparr>timers := ts\<rparr>))"
    by (rule settled_frame) (simp add: requestTimeout_def Let_def split: list.splits)
  finally show ?thesis
    by (simp add: settle_def split: list.splits)
next
  case (ConnectTimeout i)
  have "settled (connect_rejected i (connectTimeout i (c\<lparr>connectTimeouts := x\<rparr>))) = settled c" for x
    using settled_frame [of "connect_rejected i (connectTimeout i (c\<lparr>connectTimeouts := x\<rparr>))" c]
    by simp
  moreover have "settled (connectTimeout i (c\<lparr>connectTimeouts := x\<rparr>)) = settled c" for x
    using settled_frame [of "connectTimeout i (c\<lparr>connectTimeouts := x\<rparr>)" c]
    by simp
  ultimately show ?thesis using assms ConnectTimeout
    by (auto simp: step_def Let_def split: if_splits)
next
  case ReconnectTimer
  have "settled (fst (connect h (c\<lparr>reconnectTimers := x\<rparr>))) = settled c" for x
    using settled_frame [of "fst (connect h (c\<lparr>reconnectTimers := x\<rparr>))" c] by simp
  with assms ReconnectTimer show ?thesis
    by (auto simp: step_def split: if_splits)
next
  case HeartbeatTick
  with assms show ?thesis
    by (auto simp: step_def heartbeat_def split: if_splits)
qed

lemma settled_run: "run h as c = Some c1 \<Longrightarrow> prefix (settled c) (settled c1)"
proof (induction as arbitrary: c)
  case Nil
  then show ?case by simp
next
  case (Cons a as)
  then obtain d where "step h a c = Some d" "run h as d = Some c1"
    by (auto split: option.splits)
  with Cons.IH [of d] settled_step [of h a c d] show ?case
    by (auto intro: prefix_order.trans)
qed

lemma inv_reachable: "run h as (ValisClient u f) = Some c \<Longrightarrow> inv c"
  using inv_run [OF inv_init] .

lemma filter_key_unique:
  "distinct (map fst xs) \<Longrightarrow> (k, v) \<in> set xs \<Longrightarrow> filter (\<lambda>s. fst s = k) xs = [(k, v)]"
proof (induction xs)
  case Nil
  then show ?case by simp
next
  case (Cons x xs)
  show ?case
  proof (cases "x = (k, v)")
    case True
    with Cons.prems have "filter (\<lambda>s. fst s = k) xs = []"
      by (auto simp: filter_empty_conv rev_image_eqI)
    with True show ?thesis by simp
  next
    case False
    with Cons.prems have "(k, v) \<in> set xs" "fst x \<noteq> k"
      by (auto simp: rev_image_eqI)
    with Cons show ?thesis by simp
  qed
qed

lemma requestTimeout_queue:
  "queue (requestTimeout t c) =
     (case queue c of [] \<Rightarrow> []
      | front # rest \<Rightarrow> if payload front = payload t then rest else front # rest)"
  "awaitingResponse (requestTimeout t c) =
     (case queue c of [] \<Rightarrow> awaitingResponse c
      | front # rest \<Rightarrow> if payload front = payload t then False else awaitingResponse c)"
proof -
  let ?d = "case queue c of [] \<Rightarrow> c
       | front # rest \<Rightarrow> if payload front = payload t
           then c\<lparr>queue := rest, awaitingResponse := False\<rparr> else c"
  have "core (requestTimeout t c) =
    core (settle (timeoutId t) (Rejected (RequestTimedOut (requestTimeoutMs (opts ?d)))) ?d)"
    by (simp add: requestTimeout_def Let_def)
  then have "queue (requestTimeout t c) = queue ?d"
    "awaitingResponse (requestTimeout t c) = awaitingResponse ?d"
    by (auto dest!: core_fields simp: settle_def)
  then show "queue (requestTimeout t c) =
     (case queue c of [] \<Rightarrow> []
      | front # rest \<Rightarrow> if payload front = payload t then rest else front # rest)"
    "awaitingResponse (requestTimeout t c) =
     (case queue c of [] \<Rightarrow> awaitingResponse c
      | front # rest \<Rightarrow> if payload front = payload t then False else awaitingResponse c)"
    by (auto split: list.splits)
qed

lemma requestTimeout_head_iff:
  assumes "distinct (queue c)"
  shows "(t \<in> set (queue c) \<and> t \<notin> set (queue (requestTimeout t c)) \<and>
          \<not> awaitingResponse (requestTimeout t c))
         \<longleftrightarrow> (queue c \<noteq> [] \<and> hd (queue c) = t)"
  using assms by (auto simp: requestTimeout_queue split: list.splits)

section \<open>Handlers that leave the options, the heartbeat and the attempt counter alone\<close>

lemma reconnects_since_open_snoc:
  "reconnects_since_open (es @ [e]) =
     (if e = EvOpen then []
      else if is_reconnecting e then reconnects_since_open es @ [e]
      else reconnects_since_open es)"
  by (simp add: reconnects_since_open_def since_open_def)

lemma aux_updates [simp]:
  "aux (c\<lparr>url := x1\<rparr>) = aux c"
  "aux (c\<lparr>ws := x3\<rparr>) = aux c"
  "aux (c\<lparr>status := x4\<rparr>) = aux c"
  "aux (c\<lparr>connectPromise := x6\<rparr>) = aux c"
  "aux (c\<lparr>awaitingResponse := x7\<rparr>) = aux c"
  "aux (c\<lparr>manualClose := x8\<rparr>) = aux c"
  "aux (c\<lparr>queue := y1\<rparr>) = aux c"
  "aux (c\<lparr>socks := x9\<rparr>) = aux c"
  "aux (c\<lparr>wire := y2\<rparr>) = aux c"
  "aux (c\<lparr>timers := y3\<rparr>) = aux c"
  "aux (c\<lparr>next_id := y4\<rparr>) = aux c"
  "aux (c\<lparr>pushed := y5\<rparr>) = aux c"
  "aux (c\<lparr>settled := y6\<rparr>) = aux c"
  "aux (c\<lparr>logged := x11\<rparr>) = aux c"
  "aux (c\<lparr>awaiting := x12\<rparr>) = aux c"
  "aux (c\<lparr>probes := x13\<rparr>) = aux c"
  "aux (c\<lparr>connectTimeouts := x14\<rparr>) = aux c"
  "aux (c\<lparr>connectSettled := x15\<rparr>) = aux c"
  "aux (c\<lparr>reconnectTimers := x16\<rparr>) = aux c"
  by (simp_all add: aux_def)

lemma aux_emit [simp]:
  "e \<noteq> EvOpen \<Longrightarrow> \<not> is_reconnecting e \<Longrightarrow> aux (emit e c) = aux c"
  by (simp add: aux_def emit_def reconnects_since_open_snoc)

lemma aux_setStatus [simp]: "aux (setStatus s c) = aux c"
  by (simp add: setStatus_def)
lemma aux_log [simp]: "aux (log l m c) = aux c"
  by (simp add: log_def)
lemma aux_sock_close [simp]: "aux (sock_close i c) = aux c"
  by (simp add: sock_close_def)
lemma aux_clearTimeout [simp]: "aux (clearTimeout i c) = aux c"
  by (simp add: clearTimeout_def)
lemma aux_settle [simp]: "aux (settle i r c) = aux c"
  by (simp add: settle_def)
lemma aux_flushQueue [simp]: "aux (flushQueue c) = aux c"
  by (simp add: flushQueue_def split: list.splits option.splits)
lemma aux_maybeReconnectOnTimeout [simp]: "aux (maybeReconnectOnTimeout c) = aux c"
  by (simp add: maybeReconnectOnTimeout_def split: option.splits)
lemma aux_connect [simp]: "aux (fst (connect h c)) = aux c"
  by (simp add: connect_def Let_def split: option.splits)
lemma aux_enqueue [simp]: "aux (enqueue p b c) = aux c"
  by (simp add: enqueue_def Let_def)
lemma aux_heartbeat_result [simp]: "aux (heartbeat_result ok c) = aux c"
  by (simp add: heartbeat_result_def)
lemma aux_heartbeat_settled [simp]: "aux (heartbeat_settled ok i c) = aux c"
  by (simp add: heartbeat_settled_def)
lemma aux_heartbeats_settled [simp]: "aux (heartbeats_settled ok hs c) = aux c"
  by (induction hs arbitrary: c) simp_all
lemma aux_sendCommand [simp]: "aux (sendCommand h cmd b c) = aux c"
proof -
  have "aux c1 = aux c" if "connect h c = (c1, r)" for c1 r
    using aux_connect [of h c] that by simp
  then show ?thesis
    by (auto simp: sendCommand_def split: prod.splits connect_result.splits)
qed
lemma aux_resume [simp]: "aux (resume xs c) = aux c"
  by (induction xs c rule: resume.induct) simp_all
lemma aux_abandon [simp]: "aux (abandon xs c) = aux c"
  by (induction xs c rule: abandon.induct) simp_all
lemma aux_connect_fulfilled [simp]: "aux (connect_fulfilled p c) = aux c"
  by (simp add: connect_fulfilled_def)
lemma aux_connect_rejected [simp]: "aux (connect_rejected p c) = aux c"
  by (simp add: connect_rejected_def)
lemma aux_onMessage [simp]: "aux (onMessage h d c) = aux c"
  by (simp add: onMessage_def Let_def split: list.splits)
lemma aux_onError [simp]: "aux (onError e c) = aux c"
  by (simp add: onError_def)
lemma aux_connectTimeout [simp]: "aux (connectTimeout i c) = aux c"
  by (simp add: connectTimeout_def Let_def)
lemma aux_requestTimeout [simp]: "aux (requestTimeout t c) = aux c"
  by (simp add: requestTimeout_def Let_def split: list.splits)
lemma aux_heartbeat [simp]: "aux (heartbeat h c) = aux c"
  by (simp add: heartbeat_def)

lemma reject_pending_closed_form:
  "reject_pending c =
     c\<lparr>queue := [],
       timers := filter (\<lambda>t. timeoutId t \<notin> timeoutId ` set (queue c)) (timers c),
       settled := settled c @ map (\<lambda>q. (timeoutId q, Rejected ConnectionClosed)) (queue c)\<rparr>"
proof (induction c rule: reject_pending.induct)
  case (1 c)
  show ?case
  proof (cases "queue c")
    case Nil
    then have "c = c\<lparr>queue := []\<rparr>" by (cases c) simp
    then show ?thesis using Nil by (simp add: reject_pending_Nil)
  next
    case (Cons it rest)
    from "1.IH" [OF Cons] Cons show ?thesis
      by (simp add: reject_pending_Cons settle_def clearTimeout_def conj_commute)
  qed
qed

lemma aux_reject_pending [simp]: "aux (reject_pending c) = aux c"
  by (subst reject_pending_closed_form) simp

lemma aux_inv_frame: "aux_inv f c \<Longrightarrow> aux d = aux c \<Longrightarrow> aux_inv f d"
  by (simp add: aux_inv_def aux_def)

lemma aux_inv_stopHeartbeat: "aux_inv f c \<Longrightarrow> aux_inv f (stopHeartbeat c)"
  by (simp add: aux_inv_def stopHeartbeat_def)

lemma aux_inv_startHeartbeat: "aux_inv f c \<Longrightarrow> aux_inv f (startHeartbeat c)"
  by (auto simp: aux_inv_def startHeartbeat_def stopHeartbeat_def heartbeat_off_def
        split: field.splits)

lemma aux_inv_disconnect: "aux_inv f c \<Longrightarrow> aux_inv f (disconnect c)"
proof -
  assume "aux_inv f c"
  then have "aux_inv f (stopHeartbeat (setStatus StClosing (c\<lparr>manualClose := True\<rparr>)))"
    by (intro aux_inv_stopHeartbeat) (erule aux_inv_frame, simp)
  then show ?thesis
    by (rule aux_inv_frame) (simp add: disconnect_def Let_def split: option.splits)
qed

lemma emitted_scheduleReconnect:
  "emitted (scheduleReconnect u c) =
     emitted c @ [EvReconnecting (Suc (reconnectAttempt c))
                    (backoff_delay (opts c) (reconnectAttempt c) u)]"
  "reconnectAttempt (scheduleReconnect u c) = Suc (reconnectAttempt c)"
  "opts (scheduleReconnect u c) = opts c"
  "heartbeatTimer (scheduleReconnect u c) = heartbeatTimer c"
  by (simp_all add: scheduleReconnect_def Let_def emit_def setStatus_def)

lemma aux_inv_scheduleReconnect: "aux_inv f c \<Longrightarrow> aux_inv f (scheduleReconnect u c)"
  by (simp add: aux_inv_def emitted_scheduleReconnect reconnects_since_open_snoc)

lemma aux_inv_onOpen: "aux_inv f c \<Longrightarrow> aux_inv f (onOpen i c)"
proof -
  assume "aux_inv f c"
  then have "aux_inv f (emit EvOpen (setStatus StOpen c\<lparr>reconnectAttempt := 0\<rparr>))"
    by (simp add: aux_inv_def emit_def setStatus_def reconnects_since_open_snoc)
  then have "aux_inv f (flushQueue (log ''info'' ''WebSocket open''
       (emit EvOpen (setStatus StOpen c\<lparr>reconnectAttempt := 0\<rparr>))))"
    by (rule aux_inv_frame) simp
  then have "aux_inv f (startHeartbeat (flushQueue (log ''info'' ''WebSocket open''
       (emit EvOpen (setStatus StOpen c\<lparr>reconnectAttempt := 0\<rparr>)))))"
    by (rule aux_inv_startHeartbeat)
  then show ?thesis
    by (rule aux_inv_frame) (simp add: onOpen_def Let_def)
qed

lemma aux_inv_onClose: "aux_inv f c \<Longrightarrow> aux_inv f (onClose u c)"
proof -
  assume "aux_inv f c"
  then have "aux_inv f (stopHeartbeat (log ''warn'' ''WebSocket closed'' (setStatus StClosed c)))"
    by (intro aux_inv_stopHeartbeat) (erule aux_inv_frame, simp)
  then have *: "aux_inv f (reject_pending (emit EvClose
      (stopHeartbeat (log ''warn'' ''WebSocket closed'' (setStatus StClosed c))))
        \<lparr>ws := None, connectPromise := None\<rparr>)"
    by (rule aux_inv_frame) simp
  show ?thesis
    unfolding onClose_def Let_def
    using * by (auto intro: aux_inv_scheduleReconnect)
qed

lemma aux_inv_init: "aux_inv f (ValisClient u f)"
  by (simp add: aux_inv_def ValisClient_def reconnects_since_open_def since_open_def)

lemma aux_inv_step:
  assumes "aux_inv f c" "step h a c = Some c1"
  shows "aux_inv f c1"
proof (cases a)
  case Connect
  with assms show ?thesis by (auto simp: step_def elim: aux_inv_frame)
next
  case Disconnect
  with assms show ?thesis by (auto simp: step_def aux_inv_disconnect)
next
  case (SendCommand cmd)
  with assms show ?thesis by (auto simp: step_def elim: aux_inv_frame)
next
  case (SockOpen i)
  have "aux_inv f (onOpen i (c\<lparr>socks := (socks c)[i := OPEN]\<rparr>))"
    by (rule aux_inv_onOpen, rule aux_inv_frame [OF assms(1)]) simp
  then have "aux_inv f (connect_fulfilled i (onOpen i (c\<lparr>socks := (socks c)[i := OPEN]\<rparr>))
       \<lparr>connectTimeouts := x\<rparr>)" for x
    by (rule aux_inv_frame) simp
  with assms(2) SockOpen show ?thesis
    by (auto simp: step_def Let_def split: if_splits)
next
  case (SockMessage i d)
  have "aux_inv f (heartbeats_settled True xs (onMessage h d c))" for xs
    by (rule aux_inv_frame [OF assms(1)]) simp
  with assms(2) SockMessage show ?thesis
    by (auto simp: step_def split: if_splits)
next
  case (SockClose i u)
  have "aux_inv f (onClose u (c\<lparr>socks := (socks c)[i := CLOSED]\<rparr>))"
    by (rule aux_inv_onClose, rule aux_inv_frame [OF assms(1)]) simp
  then have "aux_inv f (heartbeats_settled False xs (onClose u (c\<lparr>socks := (socks c)[i := CLOSED]\<rparr>)))" for xs
    by (rule aux_inv_frame) simp
  with assms(2) SockClose show ?thesis
    by (auto simp: step_def split: if_splits)
next
  case (SockError i e)
  have "aux_inv f (onError e c)"
    by (rule aux_inv_frame [OF assms(1)]) simp
  with assms(2) SockError show ?thesis
    by (auto simp: step_def split: if_splits)
next
  case RequestTimeout
  have "aux_inv f (heartbeat_settled False x (requestTimeout t (c\<lparr>timers := ts\<rparr>)))" for x t ts
    by (rule aux_inv_frame [OF assms(1)]) simp
  with assms(2) RequestTimeout show ?thesis
    by (auto simp: step_def split: list.splits)
next
  case (ConnectTimeout i)
  have "aux_inv f (connect_rejected i (connectTimeout i (c\<lparr>connectTimeouts := x\<rparr>)))" for x
    by (rule aux_inv_frame [OF assms(1)]) simp
  moreover have "aux_inv f (connectTimeout i (c\<lparr>connectTimeouts := x\<rparr>))" for x
    by (rule aux_inv_frame [OF assms(1)]) simp
  ultimately show ?thesis using assms(2) ConnectTimeout
    by (auto simp: step_def Let_def split: if_splits)
next
  case ReconnectTimer
  have "aux_inv f (fst (connect h (c\<lparr>reconnectTimers := x\<rparr>)))" for x
    by (rule aux_inv_frame [OF assms(1)]) simp
  with assms(2) ReconnectTimer show ?thesis
    by (auto simp: step_def split: if_splits)
next
  case HeartbeatTick
  have "aux_inv f (heartbeat h c)"
    by (rule aux_inv_frame [OF assms(1)]) simp
  with assms(2) HeartbeatTick show ?thesis
    by (auto simp: step_def split: if_splits)
qed

lemma aux_inv_run: "aux_inv f c \<Longrightarrow> run h as c = Some c1 \<Longrightarrow> aux_inv f c1"
  by (induction as arbitrary: c) (auto split: option.splits dest: aux_inv_step)

lemma aux_inv_reachable: "run h as (ValisClient u f) = Some c \<Longrightarrow> aux_inv f c"
  using aux_inv_run [OF aux_inv_init] .

lemma aux_fields:
  "aux a = aux b \<Longrightarrow>
     opts a = opts b \<and> heartbeatTimer a = heartbeatTimer b \<and>
     reconnectAttempt a = reconnectAttempt b \<and>
     reconnects_since_open (emitted a) = reconnects_since_open (emitted b)"
  by (simp add: aux_def)

lemma startHeartbeat_keeps [simp]:
  "opts (startHeartbeat c) = opts c" "reconnectAttempt (startHeartbeat c) = reconnectAttempt c"
  "emitted (startHeartbeat c) = emitted c"
  by (simp_all add: startHeartbeat_def stopHeartbeat_def split: field.splits)

lemma onOpen_aux:
  "opts (onOpen i c) = opts c"
  "reconnectAttempt (onOpen i c) = 0"
  "reconnects_since_open (emitted (onOpen i c)) = []"
  "heartbeatIntervalMs (opts c) = Given n \<Longrightarrow> 0 < n \<Longrightarrow> heartbeatTimer (onOpen i c) = Some n"
proof -
  let ?d = "log ''info'' ''WebSocket open'' (emit EvOpen (setStatus StOpen c\<lparr>reconnectAttempt := 0\<rparr>))"
  have d: "opts ?d = opts c" "reconnectAttempt ?d = 0" "reconnects_since_open (emitted ?d) = []"
    by (simp_all add: log_def emit_def setStatus_def reconnects_since_open_snoc)
  have fl: "opts (flushQueue ?d) = opts c" "reconnectAttempt (flushQueue ?d) = 0"
      "reconnects_since_open (emitted (flushQueue ?d)) = []"
    using d aux_fields [of "flushQueue ?d" ?d] by simp_all
  have o: "onOpen i c = (startHeartbeat (flushQueue ?d))
      \<lparr>connectPromise := None,
        connectSettled := connectSettled (startHeartbeat (flushQueue ?d)) @ [(i, ConnectResolved)]\<rparr>"
    by (simp add: onOpen_def Let_def)
  show "opts (onOpen i c) = opts c" "reconnectAttempt (onOpen i c) = 0"
    "reconnects_since_open (emitted (onOpen i c)) = []"
    by (simp_all add: o fl)
  show "heartbeatTimer (onOpen i c) = Some n" if "heartbeatIntervalMs (opts c) = Given n" "0 < n"
    using that by (simp add: o) (simp add: startHeartbeat_def stopHeartbeat_def fl)
qed

lemma step_open_aux:
  assumes "step h (SockOpen i) c = Some c1"
  shows "aux c1 = aux (onOpen i (c\<lparr>socks := (socks c)[i := OPEN]\<rparr>))"
  using assms by (auto simp: step_def Let_def split: if_splits)

lemma emitted_maybeReconnectOnTimeout [simp]:
  "emitted (maybeReconnectOnTimeout c) = emitted c"
  by (simp add: maybeReconnectOnTimeout_def sock_close_def log_def split: option.splits)

lemma emitted_heartbeats_settled:
  "\<exists>n. emitted (heartbeats_settled False hs c) = emitted c @ replicate n (EvHeartbeat False)"
proof (induction hs arbitrary: c)
  case Nil
  show ?case by simp
next
  case (Cons x hs)
  have "emitted (heartbeat_settled False x c) = emitted c @ replicate (if x \<in> set (probes c) then 1 else 0) (EvHeartbeat False)"
    by (simp add: heartbeat_settled_def heartbeat_result_def emit_def)
  moreover from Cons [of "heartbeat_settled False x c"] obtain n where
    "emitted (heartbeats_settled False hs (heartbeat_settled False x c)) =
       emitted (heartbeat_settled False x c) @ replicate n (EvHeartbeat False)" ..
  ultimately have "emitted (heartbeats_settled False (x # hs) c) =
     emitted c @ replicate ((if x \<in> set (probes c) then 1 else 0) + n) (EvHeartbeat False)"
    by (simp add: replicate_add)
  then show ?case ..
qed

lemma onClose_reconnect:
  assumes "\<not> manualClose c" "truthy (reconnect (opts c))"
  shows "emitted (onClose r c) =
           emitted c @ [EvClose, EvReconnecting (Suc (reconnectAttempt c))
                          (backoff_delay (opts c) (reconnectAttempt c) r)]"
    and "reconnectAttempt (onClose r c) = Suc (reconnectAttempt c)"
  using assms
  by (simp_all add: onClose_def Let_def reject_pending_closed_form emitted_scheduleReconnect
        emit_def log_def setStatus_def stopHeartbeat_def)

section \<open>Arithmetic of the backoff delay\<close>



lemma run_snoc:
  "run h (as @ [a]) c = (case run h as c of None \<Rightarrow> None | Some d \<Rightarrow> step h a d)"
  by (induction as arbitrary: c) (auto split: option.splits)

text \<open>The definitions unfolded to run the client on a concrete sequence of events.\<close>

lemmas model_defs =
  ValisClient_def DEFAULTS_def merge_options_def spread_def nullish_def truthy_def
  no_options_def browser_def
  step_def connect_def disconnect_def sendCommand_def enqueue_def payload_of_def
  flushQueue_def ws_is_open_def sock_close_def clearTimeout_def settle_def
  setStatus_def log_def emit_def stopHeartbeat_def startHeartbeat_def
  maybeReconnectOnTimeout_def backoff_base_def backoff_delay_def scheduleReconnect_def
  heartbeat_result_def heartbeat_settled_def connect_fulfilled_def connect_rejected_def
  onOpen_def decode_def onMessage_def onClose_def onError_def connectTimeout_def
  requestTimeout_def heartbeat_def reject_pending_Nil reject_pending_Cons
  in_flight_def Let_def

section \<open>The serial command queue\<close>

text \<open>
  Claim C1 (single-flight FIFO serialization). In every state the client can reach, by any
  sequence of calls, socket events and timer firings:
  \<^item> the items written to the socket are a subsequence of the items enqueued, in the same
    order, and no item is enqueued twice, so no payload is written twice or out of order;
  \<^item> the pending requests are in enqueue order, so the head of the queue is the oldest;
  \<^item> at most one pending request has its payload written to a socket; if there is one, it is
    the head of the queue and \<^verbatim>\<open>awaitingResponse\<close> is set;
  \<^item> a message that arrives while a request is pending removes the head of the queue and
    resolves it with the decoded message.
\<close>

theorem single_flight_fifo:
  assumes "run h as (ValisClient u f) = Some c"
  shows "subseq (map snd (wire c)) (pushed c) \<and> distinct (pushed c) \<and>
         subseq (queue c) (pushed c) \<and>
         length (in_flight c) \<le> 1 \<and>
         (in_flight c \<noteq> [] \<longrightarrow> awaitingResponse c \<and> in_flight c = [hd (queue c)]) \<and>
         (\<forall>i d c1 front rest.
             step h (SockMessage i d) c = Some c1 \<longrightarrow> queue c = front # rest \<longrightarrow>
             queue c1 = rest \<and>
             settled c1 = settled c @ [(timeoutId front, Resolved (decode h d))])"
proof -
  from assms have "inv c" by (rule inv_reachable)
  then show ?thesis
    using inv_wire_subseq [of c] inv_pushed_distinct [of c] inv_queue_subseq [of c]
      inv_in_flight [of c] step_message_effect(1) [of h _ _ c]
    by blast
qed

theorem single_flight_fifo_witness:
  "run browser [Connect, SockOpen 0, SendCommand (CmdString ''network''),
       SendCommand (CmdString ''tokens'')] (ValisClient ''wss://test'' no_options) \<noteq> None \<and>
   map snd (wire (the (run browser [Connect, SockOpen 0, SendCommand (CmdString ''network''),
       SendCommand (CmdString ''tokens'')] (ValisClient ''wss://test'' no_options)))) =
     [\<lparr>payload = ''network'', timeoutId = 0\<rparr>] \<and>
   in_flight (the (run browser [Connect, SockOpen 0, SendCommand (CmdString ''network''),
       SendCommand (CmdString ''tokens'')] (ValisClient ''wss://test'' no_options))) =
     [\<lparr>payload = ''network'', timeoutId = 0\<rparr>] \<and>
   map_option settled (step browser (SockMessage 0 ''{}'')
      (the (run browser [Connect, SockOpen 0, SendCommand (CmdString ''network''),
       SendCommand (CmdString ''tokens'')] (ValisClient ''wss://test'' no_options)))) =
     Some [(0, Resolved (Json ''{}''))]"
proof -
  let ?as = "[Connect, SockOpen 0, SendCommand (CmdString ''network''),
       SendCommand (CmdString ''tokens'')]"
  let ?c0 = "ValisClient ''wss://test'' no_options"
  have "run browser ?as ?c0 \<noteq> None"
    by (simp add: model_defs)
  then obtain c where r: "run browser ?as ?c0 = Some c" by blast
  have q: "queue c = [\<lparr>payload = ''network'', timeoutId = 0\<rparr>, \<lparr>payload = ''tokens'', timeoutId = 1\<rparr>]"
    and w: "wire c = [(0, \<lparr>payload = ''network'', timeoutId = 0\<rparr>)]"
    and s: "settled c = []"
    using r by (auto simp add: model_defs)
  have "step browser (SockMessage 0 ''{}'') c \<noteq> None"
    using r by (auto simp add: model_defs)
  then obtain c1 where st: "step browser (SockMessage 0 ''{}'') c = Some c1" by blast
  from single_flight_fifo [OF r] st q
  have "length (in_flight c) \<le> 1" "settled c1 = settled c @ [(0, Resolved (decode browser ''{}''))]"
    by auto
  then show ?thesis
    using r st q w s by (simp add: in_flight_def decode_def browser_def)
qed

text \<open>
  Claim C2 (request timeout). In every reachable state:
  \<^item> the callback of a request's timeout removes that request from the queue and clears
    \<^verbatim>\<open>awaitingResponse\<close> if and only if the request is the head of the queue;
  \<^item> when a request timeout fires, it is the timeout of the head of the queue: the head is
    removed, \<^verbatim>\<open>awaitingResponse\<close> is cleared, and the request is rejected with the
    error "Request timed out after N ms", where N is \<^verbatim>\<open>requestTimeoutMs\<close>. The request
    was not settled before, and in every later state it is not in the queue and this
    rejection is its only settlement.
\<close>

theorem request_timeout:
  assumes "run h as (ValisClient u f) = Some c"
  shows "(\<forall>t. (t \<in> set (queue c) \<and> t \<notin> set (queue (requestTimeout t c)) \<and>
               \<not> awaitingResponse (requestTimeout t c))
              \<longleftrightarrow> (queue c \<noteq> [] \<and> hd (queue c) = t)) \<and>
         (\<forall>c1. step h RequestTimeout c = Some c1 \<longrightarrow>
            (\<exists>t rest. timers c = t # rest \<and> queue c = t # rest \<and> queue c1 = rest \<and>
               \<not> awaitingResponse c1 \<and>
               settled c1 = settled c @
                 [(timeoutId t, Rejected (RequestTimedOut (requestTimeoutMs (opts c))))] \<and>
               timeoutId t \<notin> fst ` set (settled c) \<and>
               (\<forall>bs c2. run h bs c1 = Some c2 \<longrightarrow>
                  timeoutId t \<notin> timeoutId ` set (queue c2) \<and>
                  filter (\<lambda>s. fst s = timeoutId t) (settled c2) =
                    [(timeoutId t, Rejected (RequestTimedOut (requestTimeoutMs (opts c))))])))"
proof (intro conjI allI impI)
  from assms have inv: "inv c" by (rule inv_reachable)
  then have "distinct (queue c)"
    by (auto simp: inv_def intro: sorted_ids_distinct)
  then show "(t \<in> set (queue c) \<and> t \<notin> set (queue (requestTimeout t c)) \<and>
               \<not> awaitingResponse (requestTimeout t c))
              \<longleftrightarrow> (queue c \<noteq> [] \<and> hd (queue c) = t)" for t
    by (rule requestTimeout_head_iff)
  fix c1 assume st: "step h RequestTimeout c = Some c1"
  from step_timeout_effect [OF inv st] obtain t rest where
    eff: "timers c = t # rest" "queue c = t # rest" "queue c1 = rest" "\<not> awaitingResponse c1"
      "settled c1 = settled c @
         [(timeoutId t, Rejected (RequestTimedOut (requestTimeoutMs (opts c))))]"
    by blast
  let ?s = "(timeoutId t, Rejected (RequestTimedOut (requestTimeoutMs (opts c))))"
  from inv eff(2) have fresh: "timeoutId t \<notin> fst ` set (settled c)"
    by (force simp: inv_def)
  have later: "timeoutId t \<notin> timeoutId ` set (queue c2) \<and>
       filter (\<lambda>s. fst s = timeoutId t) (settled c2) = [?s]"
    if "run h bs c1 = Some c2" for bs c2
  proof -
    from inv st have "inv c1" by (rule inv_step)
    then have inv2: "inv c2" using that by (rule inv_run)
    from settled_run [OF that] eff(5) have mem: "?s \<in> set (settled c2)"
      by (auto simp: prefix_def)
    with inv2 have "timeoutId t \<notin> timeoutId ` set (queue c2)"
      by (force simp: inv_def)
    moreover from inv2 mem have "filter (\<lambda>s. fst s = timeoutId t) (settled c2) = [?s]"
      by (intro filter_key_unique) (simp_all add: inv_def)
    ultimately show ?thesis by simp
  qed
  show "\<exists>t rest. timers c = t # rest \<and> queue c = t # rest \<and> queue c1 = rest \<and>
               \<not> awaitingResponse c1 \<and>
               settled c1 = settled c @
                 [(timeoutId t, Rejected (RequestTimedOut (requestTimeoutMs (opts c))))] \<and>
               timeoutId t \<notin> fst ` set (settled c) \<and>
               (\<forall>bs c2. run h bs c1 = Some c2 \<longrightarrow>
                  timeoutId t \<notin> timeoutId ` set (queue c2) \<and>
                  filter (\<lambda>s. fst s = timeoutId t) (settled c2) =
                    [(timeoutId t, Rejected (RequestTimedOut (requestTimeoutMs (opts c))))])"
    using eff fresh later by blast
qed

theorem request_timeout_witness:
  "run browser [Connect, SockOpen 0, SendCommand (CmdString ''network'')]
       (ValisClient ''wss://test'' no_options) \<noteq> None \<and>
   map_option (\<lambda>c. (queue c, awaitingResponse c, settled c))
     (step browser RequestTimeout
       (the (run browser [Connect, SockOpen 0, SendCommand (CmdString ''network'')]
          (ValisClient ''wss://test'' no_options)))) =
     Some ([], False, [(0, Rejected (RequestTimedOut (Given 8000)))])"
proof -
  let ?as = "[Connect, SockOpen 0, SendCommand (CmdString ''network'')]"
  let ?c0 = "ValisClient ''wss://test'' no_options"
  have "run browser ?as ?c0 \<noteq> None"
    by (simp add: model_defs)
  then obtain c where r: "run browser ?as ?c0 = Some c" by blast
  have q: "queue c = [\<lparr>payload = ''network'', timeoutId = 0\<rparr>]"
    and s: "settled c = []"
    and o: "requestTimeoutMs (opts c) = Given 8000"
    using r by (auto simp add: model_defs)
  have "step browser RequestTimeout c \<noteq> None"
    using r by (auto simp add: model_defs)
  then obtain c1 where st: "step browser RequestTimeout c = Some c1" by blast
  from request_timeout [OF r] st q s o
  have "queue c1 = [] \<and> \<not> awaitingResponse c1 \<and>
        settled c1 = [(0, Rejected (RequestTimedOut (Given 8000)))]"
    by fastforce
  then show ?thesis using r st by simp
qed

text \<open>
  Claim C3 (close drain). When a socket of the client closes, in any reachable state and
  whatever the close is due to, every request pending in the queue is rejected with
  "Connection closed", head first, which is enqueue order; afterwards the queue is empty, no
  request timeout is left scheduled, and no request has been settled twice.
\<close>

theorem close_drain:
  assumes "run h as (ValisClient u f) = Some c"
    and "step h (SockClose i r) c = Some c1"
  shows "queue c1 = [] \<and> timers c1 = [] \<and>
         settled c1 = settled c @ map (\<lambda>q. (timeoutId q, Rejected ConnectionClosed)) (queue c) \<and>
         distinct (map fst (settled c1)) \<and>
         subseq (queue c) (pushed c)"
proof -
  from assms(1) have inv: "inv c" by (rule inv_reachable)
  then have "inv c1" using assms(2) by (rule inv_step)
  then have "timers c1 = queue c1" "distinct (map fst (settled c1))"
    by (simp_all add: inv_def)
  with step_close_effect [OF assms(2)] inv_queue_subseq [OF inv] show ?thesis
    by simp
qed

theorem close_drain_witness:
  "run browser [Connect, SockOpen 0, SendCommand (CmdString ''network''),
       SendCommand (CmdString ''tokens'')] (ValisClient ''wss://test'' no_options) \<noteq> None \<and>
   map_option (\<lambda>c. (queue c, timers c, settled c))
     (step browser (SockClose 0 (1 / 2))
       (the (run browser [Connect, SockOpen 0, SendCommand (CmdString ''network''),
          SendCommand (CmdString ''tokens'')] (ValisClient ''wss://test'' no_options)))) =
     Some ([], [], [(0, Rejected ConnectionClosed), (1, Rejected ConnectionClosed)])"
proof -
  let ?as = "[Connect, SockOpen 0, SendCommand (CmdString ''network''),
       SendCommand (CmdString ''tokens'')]"
  let ?c0 = "ValisClient ''wss://test'' no_options"
  have "run browser ?as ?c0 \<noteq> None"
    by (simp add: model_defs)
  then obtain c where r: "run browser ?as ?c0 = Some c" by blast
  have q: "queue c = [\<lparr>payload = ''network'', timeoutId = 0\<rparr>, \<lparr>payload = ''tokens'', timeoutId = 1\<rparr>]"
    and s: "settled c = []"
    and k: "socks c = [OPEN]"
    using r by (auto simp add: model_defs)
  have "step browser (SockClose 0 (1 / 2)) c \<noteq> None"
    using k by (simp add: step_def)
  then obtain c1 where st: "step browser (SockClose 0 (1 / 2)) c = Some c1" by blast
  from close_drain [OF r st] q s
  have "queue c1 = [] \<and> timers c1 = [] \<and>
        settled c1 = [(0, Rejected ConnectionClosed), (1, Rejected ConnectionClosed)]"
    by simp
  then show ?thesis using r st by simp
qed

text \<open>
  Claim C4 (the in-flight flag and the close of the connection). The claim says that
  \<^verbatim>\<open>awaitingResponse\<close> is false after the close handler has run. The handler rejects
  and removes every pending request, the one in flight included, but it never assigns
  \<^verbatim>\<open>awaitingResponse\<close>: the flag keeps the value it had. With a request in flight when
  the socket closes, the queue is empty afterwards and the flag is still set; after the
  reconnect the next command is appended to the queue and \<^verbatim>\<open>flushQueue\<close> returns at
  \<^verbatim>\<open>if (this.awaitingResponse) return\<close>, so its payload is not written.
\<close>

theorem close_leaves_awaitingResponse:
  "awaitingResponse (onClose r c) = awaitingResponse c \<and>
   map_option (\<lambda>c. (queue c, in_flight c, awaitingResponse c))
     (run browser [Connect, SockOpen 0, SendCommand (CmdString ''network''), SockClose 0 (1 / 2)]
        (ValisClient ''wss://test'' no_options)) = Some ([], [], True) \<and>
   map_option (\<lambda>c. (map snd (wire c), queue c, awaitingResponse c))
     (run browser [Connect, SockOpen 0, SendCommand (CmdString ''network''), SockClose 0 (1 / 2),
         ReconnectTimer, SockOpen 1, SendCommand (CmdString ''tokens'')]
        (ValisClient ''wss://test'' no_options)) =
     Some ([\<lparr>payload = ''network'', timeoutId = 0\<rparr>],
           [\<lparr>payload = ''tokens'', timeoutId = 1\<rparr>], True)"
proof (intro conjI)
  have "core (onClose r c) = core (reject_pending
      (emit EvClose (stopHeartbeat (log ''warn'' ''WebSocket closed'' (setStatus StClosed c)))))"
    by (simp add: onClose_def Let_def)
  then have "awaitingResponse (onClose r c) = awaitingResponse (reject_pending
      (emit EvClose (stopHeartbeat (log ''warn'' ''WebSocket closed'' (setStatus StClosed c)))))"
    by (simp add: core_def)
  then show "awaitingResponse (onClose r c) = awaitingResponse c"
    by (simp add: reject_pending_closed_form emit_def stopHeartbeat_def log_def setStatus_def)
qed (simp_all add: model_defs)

section \<open>The reconnection policy\<close>




text \<open>
  Claim C10 (the \<open>reconnecting\<close> event reports the incremented counter). In every
  reachable state the attempt counter is the number \<open>k\<close> of \<open>reconnecting\<close> events
  emitted since the last \<open>open\<close> event. A close that schedules a reconnect emits
  \<open>close\<close> and then \<open>reconnecting\<close> with attempt \<open>k + 1\<close> and the delay computed
  from the exponent \<open>k\<close>, followed only by failed-heartbeat events of drained probes, and
  leaves the counter at \<open>k + 1\<close>. Every open of a socket resets the counter to 0.
\<close>

theorem reconnecting_reports_next_attempt:
  assumes "run h as (ValisClient u f) = Some c"
  shows "reconnectAttempt c = length (reconnects_since_open (emitted c)) \<and>
     (\<forall>i r c1. step h (SockClose i r) c = Some c1 \<longrightarrow>
        \<not> manualClose c \<longrightarrow> truthy (reconnect (opts c)) \<longrightarrow>
        (\<exists>n. emitted c1 =
           emitted c @
           [EvClose,
            EvReconnecting (Suc (reconnectAttempt c))
              (backoff_delay (opts c) (reconnectAttempt c) r)] @
           replicate n (EvHeartbeat False)) \<and>
        reconnectAttempt c1 = Suc (reconnectAttempt c)) \<and>
     (\<forall>i c1. step h (SockOpen i) c = Some c1 \<longrightarrow>
        reconnectAttempt c1 = 0 \<and> reconnects_since_open (emitted c1) = [])"
proof (intro conjI allI impI)
  from aux_inv_reachable [OF assms]
  show "reconnectAttempt c = length (reconnects_since_open (emitted c))"
    by (simp add: aux_inv_def)
next
  fix i r c1
  assume st: "step h (SockClose i r) c = Some c1"
    and m: "\<not> manualClose c" and t: "truthy (reconnect (opts c))"
  let ?d = "c\<lparr>socks := (socks c)[i := CLOSED]\<rparr>"
  from st obtain xs where c1: "c1 = heartbeats_settled False xs (onClose r ?d)"
    by (auto simp: step_def split: if_splits)
  from emitted_heartbeats_settled [of xs "onClose r ?d"] obtain n where
    "emitted c1 = emitted (onClose r ?d) @ replicate n (EvHeartbeat False)"
    unfolding c1 ..
  then have "emitted c1 =
           emitted c @
           [EvClose,
            EvReconnecting (Suc (reconnectAttempt c))
              (backoff_delay (opts c) (reconnectAttempt c) r)] @
           replicate n (EvHeartbeat False)"
    using m t by (simp add: onClose_reconnect(1))
  then show "\<exists>n. emitted c1 =
           emitted c @
           [EvClose,
            EvReconnecting (Suc (reconnectAttempt c))
              (backoff_delay (opts c) (reconnectAttempt c) r)] @
           replicate n (EvHeartbeat False)" ..
  have "aux c1 = aux (onClose r ?d)" by (simp add: c1)
  then have "reconnectAttempt c1 = reconnectAttempt (onClose r ?d)"
    by (rule aux_fields [THEN conjunct2, THEN conjunct2, THEN conjunct1])
  then show "reconnectAttempt c1 = Suc (reconnectAttempt c)"
    using m t by (simp add: onClose_reconnect(2))
next
  fix i c1
  assume st: "step h (SockOpen i) c = Some c1"
  from step_open_aux [OF st, THEN aux_fields]
  show "reconnectAttempt c1 = 0" by (simp add: onOpen_aux)
next
  fix i c1
  assume st: "step h (SockOpen i) c = Some c1"
  from step_open_aux [OF st, THEN aux_fields]
  show "reconnects_since_open (emitted c1) = []" by (simp add: onOpen_aux)
qed

theorem reconnecting_reports_next_attempt_witness:
  "run browser [Connect, SockOpen 0, SockClose 0 (1 / 2), ReconnectTimer, SockClose 1 0, ReconnectTimer]
     (ValisClient ''wss://test'' no_options) \<noteq> None \<and>
   reconnectAttempt (the (run browser
     [Connect, SockOpen 0, SockClose 0 (1 / 2), ReconnectTimer, SockClose 1 0, ReconnectTimer]
     (ValisClient ''wss://test'' no_options))) = 2 \<and>
   map_option (\<lambda>c. (reconnectAttempt c, emitted c)) (step browser (SockClose 2 0) (the (run browser
     [Connect, SockOpen 0, SockClose 0 (1 / 2), ReconnectTimer, SockClose 1 0, ReconnectTimer]
     (ValisClient ''wss://test'' no_options)))) =
     Some (3, [EvOpen, EvClose, EvReconnecting 1 550, EvClose, EvReconnecting 2 1000,
               EvClose, EvReconnecting 3 2000])"
proof -
  let ?c0 = "ValisClient ''wss://test'' no_options"
  let ?bs = "[Connect, SockOpen 0, SockClose 0 (1 / 2), ReconnectTimer, SockClose 1 0, ReconnectTimer]"
  have "run browser ?bs ?c0 \<noteq> None" by (simp add: model_defs)
  then obtain d where r: "run browser ?bs ?c0 = Some d" by blast
  have f: "emitted d = [EvOpen, EvClose, EvReconnecting 1 550, EvClose, EvReconnecting 2 1000]"
    "\<not> manualClose d" "truthy (reconnect (opts d))"
    using r by (auto simp: model_defs)
  have full: "map_option emitted (run browser (?bs @ [SockClose 2 0]) ?c0) =
     Some [EvOpen, EvClose, EvReconnecting 1 550, EvClose, EvReconnecting 2 1000,
           EvClose, EvReconnecting 3 2000]"
    by (simp add: model_defs)
  then obtain d1 where st: "step browser (SockClose 2 0) d = Some d1"
    and e: "emitted d1 = [EvOpen, EvClose, EvReconnecting 1 550, EvClose, EvReconnecting 2 1000,
           EvClose, EvReconnecting 3 2000]"
    unfolding run_snoc r by auto
  from reconnecting_reports_next_attempt [OF r]
  have "reconnectAttempt d = length (reconnects_since_open (emitted d))" by blast
  then have 1: "reconnectAttempt d = 2"
    by (simp add: f reconnects_since_open_def since_open_def)
  from reconnecting_reports_next_attempt [OF r] st f(2,3)
  have "reconnectAttempt d1 = Suc (reconnectAttempt d)" by blast
  with 1 have 2: "reconnectAttempt d1 = 3" by simp
  from 1 2 e r st show ?thesis by simp
qed

section \<open>The heartbeat monitor\<close>

text \<open>
  Claim C6 (heartbeat disable rule), as amended. A client constructed with
  \<^verbatim>\<open>heartbeatIntervalMs\<close> equal to 0 (or negative, or present with the value
  \<^verbatim>\<open>undefined\<close>) never has a heartbeat timer, in any state it can reach, so the heartbeat
  callback never runs and no probe is issued. A client constructed without
  \<^verbatim>\<open>heartbeatIntervalMs\<close> gets the default of 15000 ms: after every open of a socket
  its heartbeat timer is scheduled with that interval.
\<close>

theorem heartbeat_disable_rule:
  assumes "run h as (ValisClient u f) = Some c"
  shows "(heartbeatIntervalMs f = Undefined \<or> (\<exists>n. heartbeatIntervalMs f = Given n \<and> n \<le> 0) \<longrightarrow>
            heartbeatTimer c = None \<and> step h HeartbeatTick c = None) \<and>
         (heartbeatIntervalMs f = Absent \<longrightarrow>
            (\<forall>i c1. step h (SockOpen i) c = Some c1 \<longrightarrow> heartbeatTimer c1 = Some 15000))"
proof (intro conjI impI allI)
  from aux_inv_reachable [OF assms]
  have o: "opts c = merge_options DEFAULTS f"
    and off: "heartbeat_off (opts c) \<Longrightarrow> heartbeatTimer c = None"
    by (simp_all add: aux_inv_def)
  {
    assume "heartbeatIntervalMs f = Undefined \<or> (\<exists>n. heartbeatIntervalMs f = Given n \<and> n \<le> 0)"
    then have "heartbeat_off (opts c)"
      by (auto simp: o heartbeat_off_def merge_options_def spread_def)
    then show "heartbeatTimer c = None" by (rule off)
    then show "step h HeartbeatTick c = None" by (simp add: step_def)
  }
  fix i c1
  assume a: "heartbeatIntervalMs f = Absent" and st: "step h (SockOpen i) c = Some c1"
  from a have "heartbeatIntervalMs (opts c) = Given 15000"
    by (simp add: o merge_options_def spread_def DEFAULTS_def)
  then have "heartbeatTimer (onOpen i (c\<lparr>socks := (socks c)[i := OPEN]\<rparr>)) = Some 15000"
    by (intro onOpen_aux(4)) simp_all
  with step_open_aux [OF st, THEN aux_fields]
  show "heartbeatTimer c1 = Some 15000" by simp
qed

theorem heartbeat_disable_rule_witness:
  "run browser [Connect, SockOpen 0, SendCommand (CmdString ''network'')]
     (ValisClient ''wss://test'' (no_options\<lparr>heartbeatIntervalMs := Given 0\<rparr>)) \<noteq> None \<and>
   heartbeatTimer (the (run browser [Connect, SockOpen 0, SendCommand (CmdString ''network'')]
     (ValisClient ''wss://test'' (no_options\<lparr>heartbeatIntervalMs := Given 0\<rparr>)))) = None \<and>
   step browser HeartbeatTick
     (the (run browser [Connect, SockOpen 0, SendCommand (CmdString ''network'')]
       (ValisClient ''wss://test'' (no_options\<lparr>heartbeatIntervalMs := Given 0\<rparr>)))) = None \<and>
   map_option heartbeatTimer
     (step browser (SockOpen 0) (the (run browser [Connect] (ValisClient ''wss://test'' no_options))))
     = Some (Some 15000)"
proof -
  let ?f = "no_options\<lparr>heartbeatIntervalMs := Given 0\<rparr>"
  let ?as = "[Connect, SockOpen 0, SendCommand (CmdString ''network'')]"
  have "run browser ?as (ValisClient ''wss://test'' ?f) \<noteq> None"
    by (simp add: model_defs)
  then obtain c where r: "run browser ?as (ValisClient ''wss://test'' ?f) = Some c" by blast
  have z: "heartbeatIntervalMs ?f = Given 0" by simp
  from heartbeat_disable_rule [OF r] z
  have 1: "heartbeatTimer c = None \<and> step browser HeartbeatTick c = None" by simp
  have "run browser [Connect] (ValisClient ''wss://test'' no_options) \<noteq> None"
    by (simp add: model_defs)
  then obtain d where r2: "run browser [Connect] (ValisClient ''wss://test'' no_options) = Some d"
    by blast
  have "socks d = [CONNECTING]" using r2 by (auto simp: model_defs)
  then have "step browser (SockOpen 0) d \<noteq> None" by (simp add: step_def Let_def)
  then obtain d1 where st: "step browser (SockOpen 0) d = Some d1" by blast
  have a: "heartbeatIntervalMs no_options = Absent" by (simp add: no_options_def)
  from heartbeat_disable_rule [OF r2] a st have 2: "heartbeatTimer d1 = Some 15000" by blast
  from 1 2 r r2 st show ?thesis by simp
qed

text \<open>
  The claim as stated also has the heartbeat disabled when \<^verbatim>\<open>heartbeatIntervalMs\<close> is
  absent. With no options at all the timer is scheduled when the socket opens, and its first
  tick on the idle connection writes the probe \<^verbatim>\<open>network\<close>.
\<close>

theorem heartbeat_default_counterexample:
  "heartbeatIntervalMs no_options = Absent \<and>
   map_option heartbeatTimer
     (run browser [Connect, SockOpen 0] (ValisClient ''wss://test'' no_options)) =
     Some (Some 15000) \<and>
   map_option (\<lambda>c. (map snd (wire c), probes c))
     (run browser [Connect, SockOpen 0, HeartbeatTick] (ValisClient ''wss://test'' no_options)) =
     Some ([\<lparr>payload = ''network'', timeoutId = 0\<rparr>], [0])"
  by (simp add: model_defs)

text \<open>
  Claim C8 (heartbeat non-interference). The heartbeat callback does nothing at all while
  \<^verbatim>\<open>awaitingResponse\<close> is set or the queue is not empty, in particular while a request
  is in flight; whenever it changes the state, the queue was empty and nothing was in flight,
  and what it does then is \<^verbatim>\<open>sendCommand('network')\<close>.
\<close>

theorem heartbeat_only_when_idle:
  "(awaitingResponse c \<or> queue c \<noteq> [] \<longrightarrow> heartbeat h c = c) \<and>
   (in_flight c \<noteq> [] \<longrightarrow> heartbeat h c = c) \<and>
   (heartbeat h c \<noteq> c \<longrightarrow> \<not> awaitingResponse c \<and> queue c = [] \<and> in_flight c = []) \<and>
   (\<not> awaitingResponse c \<and> queue c = [] \<longrightarrow>
      heartbeat h c = sendCommand h (CmdString ''network'') True c) \<and>
   (\<forall>c1. step h HeartbeatTick c = Some c1 \<longrightarrow> awaitingResponse c \<or> queue c \<noteq> [] \<longrightarrow> c1 = c)"
  by (auto simp: heartbeat_def in_flight_def step_def)

theorem heartbeat_only_when_idle_witness:
  "awaitingResponse (the (run browser [Connect, SockOpen 0, SendCommand (CmdString ''tokens'')]
       (ValisClient ''wss://test'' no_options))) \<and>
   step browser HeartbeatTick
     (the (run browser [Connect, SockOpen 0, SendCommand (CmdString ''tokens'')]
       (ValisClient ''wss://test'' no_options))) =
   Some (the (run browser [Connect, SockOpen 0, SendCommand (CmdString ''tokens'')]
       (ValisClient ''wss://test'' no_options))) \<and>
   map_option (\<lambda>c. map snd (wire c))
     (step browser HeartbeatTick
       (the (run browser [Connect, SockOpen 0] (ValisClient ''wss://test'' no_options)))) =
   Some [\<lparr>payload = ''network'', timeoutId = 0\<rparr>]"
proof -
  let ?c = "the (run browser [Connect, SockOpen 0, SendCommand (CmdString ''tokens'')]
       (ValisClient ''wss://test'' no_options))"
  let ?d = "the (run browser [Connect, SockOpen 0] (ValisClient ''wss://test'' no_options))"
  have a: "awaitingResponse ?c" "heartbeatTimer ?c \<noteq> None"
    by (simp_all add: model_defs)
  then have "step browser HeartbeatTick ?c = Some (heartbeat browser ?c)"
    by (simp add: step_def)
  moreover from heartbeat_only_when_idle [of ?c browser] a(1)
  have "heartbeat browser ?c = ?c" by blast
  ultimately have 1: "step browser HeartbeatTick ?c = Some ?c" by (simp only:)
  have d: "\<not> awaitingResponse ?d" "queue ?d = []" "heartbeatTimer ?d \<noteq> None"
    by (simp_all add: model_defs)
  then have "step browser HeartbeatTick ?d = Some (heartbeat browser ?d)"
    by (simp add: step_def)
  moreover from heartbeat_only_when_idle [of ?d browser] d(1,2)
  have "heartbeat browser ?d = sendCommand browser (CmdString ''network'') True ?d" by blast
  ultimately
  have "step browser HeartbeatTick ?d = Some (sendCommand browser (CmdString ''network'') True ?d)"
    by (simp only:)
  then have 2: "map_option (\<lambda>c. map snd (wire c)) (step browser HeartbeatTick ?d) =
     Some [\<lparr>payload = ''network'', timeoutId = 0\<rparr>]"
    by (simp add: model_defs)
  from a(1) 1 2 show ?thesis by simp
qed

section \<open>The connection lifecycle\<close>



text \<open>
  Claim C9 (a socket error only emits an event). The error notification of a socket appends
  one \<open>error\<close> event (and one log entry) and changes nothing else: the status, the queue,
  the in-flight flag, the settlements of the pending requests, the socket reference, the
  sockets, the timers and the wire are as before.
\<close>

theorem socket_error_only_emits:
  assumes "step h (SockError i err) c = Some c1"
  shows "c1 = c\<lparr>emitted := emitted c @
                    [EvError (case err of Some m \<Rightarrow> m | None \<Rightarrow> ''WebSocket error'')],
               logged := logged c @ [(''error'', ''WebSocket error'')]\<rparr> \<and>
         status c1 = status c \<and> queue c1 = queue c \<and>
         awaitingResponse c1 = awaitingResponse c \<and> settled c1 = settled c \<and>
         ws c1 = ws c \<and> socks c1 = socks c \<and> timers c1 = timers c \<and> wire c1 = wire c \<and>
         connectPromise c1 = connectPromise c \<and> heartbeatTimer c1 = heartbeatTimer c \<and>
         reconnectAttempt c1 = reconnectAttempt c \<and> manualClose c1 = manualClose c"
  using assms
  by (auto simp: step_def onError_def emit_def log_def Let_def split: if_splits)

theorem socket_error_only_emits_witness:
  "map_option (\<lambda>c. (emitted c, status c, queue c, awaitingResponse c, settled c, ws c))
     (step browser (SockError 0 None)
        (the (run browser [Connect, SockOpen 0, SendCommand (CmdString ''network'')]
           (ValisClient ''wss://test'' no_options)))) =
   Some ([EvOpen, EvError ''WebSocket error''], StOpen,
         [\<lparr>payload = ''network'', timeoutId = 0\<rparr>], True, [], Some 0)"
proof -
  let ?c = "the (run browser [Connect, SockOpen 0, SendCommand (CmdString ''network'')]
           (ValisClient ''wss://test'' no_options))"
  have s: "socks ?c = [OPEN]" by (simp add: model_defs)
  then have "step browser (SockError 0 None) ?c \<noteq> None"
    by (simp add: step_def)
  then obtain c1 where st: "step browser (SockError 0 None) ?c = Some c1" by blast
  have f: "emitted ?c = [EvOpen]" "status ?c = StOpen"
    "queue ?c = [\<lparr>payload = ''network'', timeoutId = 0\<rparr>]" "awaitingResponse ?c"
    "settled ?c = []" "ws ?c = Some 0"
    by (simp_all add: model_defs)
  from socket_error_only_emits [OF st]
  have "emitted c1 = emitted ?c @ [EvError ''WebSocket error'']"
    "status c1 = status ?c" "queue c1 = queue ?c" "awaitingResponse c1 = awaitingResponse ?c"
    "settled c1 = settled ?c" "ws c1 = ws ?c"
    by simp_all
  then show ?thesis using st f by simp
qed

end
